theory Spec2Isabelle
  imports Main
begin

unbundle bit_operations_syntax

section \<open>Data model\<close>

text \<open>
  The solver of \<^verbatim>\<open>better_board_reconstruct.py\<close> works on Python integers used as
  bitsets. Every bitset the program builds comes from \<^verbatim>\<open>0\<close>, \<^verbatim>\<open>(1 << m) - 1\<close> with
  \<^verbatim>\<open>m >= 1\<close>, \<^verbatim>\<open>1 << k\<close> (which raises for a negative \<^verbatim>\<open>k\<close>) and the bitwise
  operations on such values, so a bitset is a natural number. Cell indices, which are computed
  as \<^verbatim>\<open>r * ncols + c\<close> from arbitrary JSON integers, stay \<open>int\<close>, and indexing a list with
  them follows Python's rule for negative indices. A Python string is the list of its code
  points.
\<close>

type_synonym bitset = nat
type_synonym pystr = "nat list"
type_synonym path = "int list \<times> nat"
type_synonym table = "bitset list list"
type_synonym wordsdict = "(nat \<times> pystr list) list"

datatype error = IndexError | KeyError | ValueError | RecursionError

text \<open>
  \<^verbatim>\<open>ALL = (1 << 26) - 1\<close>, the 26-letter domain (the name \<open>ALL\<close> is Isabelle's ASCII
  quantifier).
\<close>

definition ALL_letters :: bitset where
  "ALL_letters = push_bit 26 1 - 1"

subsection \<open>Python list indexing\<close>

definition norm_index :: "nat \<Rightarrow> int \<Rightarrow> nat option" where
  "norm_index n i =
     (if 0 \<le> i \<and> i < int n then Some (nat i)
      else if i < 0 \<and> - int n \<le> i then Some (nat (int n + i))
      else None)"

definition getitem :: "'a list \<Rightarrow> int \<Rightarrow> error + 'a" where
  "getitem xs i =
     (case norm_index (length xs) i of None \<Rightarrow> Inl IndexError | Some j \<Rightarrow> Inr (xs ! j))"

definition setitem :: "'a list \<Rightarrow> int \<Rightarrow> 'a \<Rightarrow> error + 'a list" where
  "setitem xs i v =
     (case norm_index (length xs) i of None \<Rightarrow> Inl IndexError | Some j \<Rightarrow> Inr (xs[j := v]))"

subsection \<open>Bit helpers\<close>

text \<open>\<^verbatim>\<open>int.bit_length()\<close> and \<^verbatim>\<open>int.bit_count()\<close> on a non-negative integer.\<close>

fun bit_length :: "nat \<Rightarrow> nat" where
  "bit_length x = (if x = 0 then 0 else Suc (bit_length (x div 2)))"

fun bitcount :: "nat \<Rightarrow> nat" where
  "bitcount x = (if x = 0 then 0 else x mod 2 + bitcount (x div 2))"

declare bit_length.simps [simp del] bitcount.simps [simp del]

text \<open>\<^verbatim>\<open>x & -x\<close>: the negation is taken in the integers, as Python does.\<close>

definition lowbit :: "nat \<Rightarrow> nat" where
  "lowbit x = nat (int x AND - int x)"


text \<open>
  \<^verbatim>\<open>iter_bits\<close> yields the indices of the 1-bits, lowest first. The generator is consumed by
  one \<^verbatim>\<open>for\<close> loop over an integer that nothing changes meanwhile, so it is the list of
  what it yields. \<^verbatim>\<open>lsb.bit_length() - 1\<close> is taken of a nonzero \<^verbatim>\<open>lsb\<close>.
\<close>

lemma int_and_neg_rec:
  "(k::int) AND - k = (if odd k then 1 else 2 * ((k div 2) AND - (k div 2)))"
proof (cases "odd k")
  case True
  then obtain m where k: "k = 2 * m + 1" by (auto elim: oddE)
  have "(- k) div 2 = - m - 1" unfolding k by simp
  hence d: "(- k) div 2 = NOT m" by (simp add: not_int_def)
  have "k AND - k = of_bool (odd k \<and> odd (- k)) + 2 * ((k div 2) AND ((- k) div 2))"
    by (rule and_int_rec)
  also have "\<dots> = 1 + 2 * (m AND NOT m)" using True d unfolding k by simp
  finally show ?thesis using True by simp
next
  case False
  then obtain m where k: "k = 2 * m" by (auto elim: evenE)
  have "k AND - k = of_bool (odd k \<and> odd (- k)) + 2 * ((k div 2) AND ((- k) div 2))"
    by (rule and_int_rec)
  also have "\<dots> = 2 * (m AND - m)"
  proof -
    have "(- (2 * m)) div 2 = - m" by simp
    then show ?thesis unfolding k by simp
  qed
  finally show ?thesis using False k by simp
qed

lemma lowbit_rec: "lowbit x = (if odd x then 1 else 2 * lowbit (x div 2))"
proof -
  have "int x AND - int x = (if odd (int x) then 1 else 2 * ((int x div 2) AND - (int x div 2)))"
    by (rule int_and_neg_rec)
  moreover have "int x div 2 = int (x div 2)" by simp
  moreover have "0 \<le> int (x div 2) AND - int (x div 2)" by simp
  ultimately show ?thesis
    unfolding lowbit_def by (auto simp: nat_mult_distrib)
qed

lemma lowbit_pow:
  "x \<noteq> 0 \<Longrightarrow> \<exists>k. lowbit x = 2 ^ k \<and> bit x k \<and> (\<forall>j<k. \<not> bit x j)"
proof (induction x rule: less_induct)
  case (less x)
  show ?case
  proof (cases "odd x")
    case True
    then have "lowbit x = 2 ^ 0 \<and> bit x 0 \<and> (\<forall>j<0. \<not> bit x j)"
      by (simp add: lowbit_rec [of x] bit_0)
    then show ?thesis by blast
  next
    case False
    with less.prems have "x div 2 < x" "x div 2 \<noteq> 0" by auto
    from less.IH [OF this] obtain k where
      k: "lowbit (x div 2) = 2 ^ k" "bit (x div 2) k" "\<forall>j<k. \<not> bit (x div 2) j" by blast
    have "lowbit x = 2 ^ Suc k" using False k(1) by (simp add: lowbit_rec [of x])
    moreover have "bit x (Suc k)" using k(2) by (simp add: bit_Suc)
    moreover have "\<forall>j<Suc k. \<not> bit x j"
    proof (intro allI impI)
      fix j assume "j < Suc k"
      show "\<not> bit x j"
      proof (cases j)
        case 0 then show ?thesis using False by (simp add: bit_0)
      next
        case (Suc i) then show ?thesis using k(3) \<open>j < Suc k\<close> by (simp add: bit_Suc)
      qed
    qed
    ultimately show ?thesis by blast
  qed
qed

lemma and_le_nat2: "(x::nat) AND y \<le> y"
proof -
  have "int (x AND y) = int x AND int y" by (simp add: of_nat_and_eq)
  also have "\<dots> \<le> int y" by (rule AND_upper2) simp
  finally show ?thesis by simp
qed

lemma xor_pow_less: "bit (x::nat) k \<Longrightarrow> x XOR 2 ^ k < x"
proof -
  assume b: "bit x k"
  have "x XOR 2 ^ k = flip_bit k x" by (simp add: flip_bit_eq_xor)
  also have "\<dots> = unset_bit k x" using b by (simp add: flip_bit_eq_if)
  finally have e: "x XOR 2 ^ k = unset_bit k x" .
  have "int (unset_bit k x) = unset_bit k (int x)" by (simp add: of_nat_unset_bit_eq)
  moreover have "unset_bit k (int x) \<le> int x" by (rule unset_bit_less_eq)
  ultimately have "unset_bit k x \<le> x" by linarith
  moreover have "unset_bit k x \<noteq> x" using b by (metis bit_unset_bit_iff)
  ultimately show ?thesis using e by simp
qed

lemma xor_lowbit_less: "x \<noteq> 0 \<Longrightarrow> x XOR lowbit x < x"
  using lowbit_pow [of x] xor_pow_less [of x] by auto

function iter_bits :: "nat \<Rightarrow> nat list" where
  "iter_bits x =
     (if x = 0 then []
      else (let lsb = lowbit x in (bit_length lsb - 1) # iter_bits (x XOR lsb)))"
  by pat_completeness auto
termination
  by (relation "measure id") (simp_all add: xor_lowbit_less)

declare iter_bits.simps [simp del]

section \<open>Word index\<close>

text \<open>
  \<^verbatim>\<open>words_by_len\<close> is a \<^verbatim>\<open>defaultdict(list)\<close>: an association list in insertion order
  whose lookup of a missing key gives the empty list.
\<close>

fun dict_append :: "wordsdict \<Rightarrow> nat \<Rightarrow> pystr \<Rightarrow> wordsdict" where
  "dict_append [] L w = [(L, [w])]"
| "dict_append ((k, ws) # rest) L w =
     (if k = L then (k, ws @ [w]) # rest else (k, ws) # dict_append rest L w)"

definition dict_get :: "wordsdict \<Rightarrow> nat \<Rightarrow> pystr list" where
  "dict_get words_by_len L = (case map_of words_by_len L of None \<Rightarrow> [] | Some ws \<Rightarrow> ws)"

text \<open>
  \<^verbatim>\<open>load_dictionary\<close> reads the lines of the dictionary file. \<^verbatim>\<open>str.strip\<close>,
  \<^verbatim>\<open>str.isalpha\<close> and \<^verbatim>\<open>str.upper\<close> are Python's Unicode-aware built-ins; they are
  parameters of the model.
\<close>

fun load_dictionary_loop ::
  "(pystr \<Rightarrow> pystr) \<Rightarrow> (pystr \<Rightarrow> bool) \<Rightarrow> (pystr \<Rightarrow> pystr) \<Rightarrow> nat \<Rightarrow> pystr list \<Rightarrow> wordsdict \<Rightarrow> wordsdict"
where
  "load_dictionary_loop strip isalpha upper max_len [] words_by_len = words_by_len"
| "load_dictionary_loop strip isalpha upper max_len (line # rest) words_by_len =
     (let w = strip line in
      if w = [] \<or> \<not> isalpha w
      then load_dictionary_loop strip isalpha upper max_len rest words_by_len
      else (let w' = upper w; L = length w' in
            if 1 \<le> L \<and> L \<le> max_len
            then load_dictionary_loop strip isalpha upper max_len rest (dict_append words_by_len L w')
            else load_dictionary_loop strip isalpha upper max_len rest words_by_len))"

definition load_dictionary ::
  "(pystr \<Rightarrow> pystr) \<Rightarrow> (pystr \<Rightarrow> bool) \<Rightarrow> (pystr \<Rightarrow> pystr) \<Rightarrow> nat \<Rightarrow> pystr list \<Rightarrow> wordsdict"
where
  "load_dictionary strip isalpha upper max_len lines =
     load_dictionary_loop strip isalpha upper max_len lines []"

text \<open>The loop over \<^verbatim>\<open>enumerate(words)\<close> that fills \<^verbatim>\<open>letter_bits\<close> for one position.\<close>

fun letter_bits_loop :: "nat \<Rightarrow> (nat \<times> pystr) list \<Rightarrow> bitset list \<Rightarrow> error + bitset list" where
  "letter_bits_loop pos [] letter_bits = Inr letter_bits"
| "letter_bits_loop pos ((wid, w) # rest) letter_bits =
     (case getitem w (int pos) of
        Inl e \<Rightarrow> Inl e
      | Inr ch \<Rightarrow>
          (let li = int ch - 65 in
           if 0 \<le> li \<and> li < 26
           then letter_bits_loop pos rest
                  (letter_bits[nat li := (letter_bits ! nat li) OR push_bit wid 1])
           else letter_bits_loop pos rest letter_bits))"

fun pos_tables_loop :: "pystr list \<Rightarrow> nat list \<Rightarrow> table \<Rightarrow> error + table" where
  "pos_tables_loop words [] pos_tables = Inr pos_tables"
| "pos_tables_loop words (pos # rest) pos_tables =
     (case letter_bits_loop pos (enumerate 0 words) (replicate 26 0) of
        Inl e \<Rightarrow> Inl e
      | Inr letter_bits \<Rightarrow> pos_tables_loop words rest (pos_tables @ [letter_bits]))"

fun build_index_loop ::
  "wordsdict \<Rightarrow> (nat \<rightharpoonup> table) \<Rightarrow> (nat \<rightharpoonup> bitset) \<Rightarrow> error + ((nat \<rightharpoonup> table) \<times> (nat \<rightharpoonup> bitset))"
where
  "build_index_loop [] index all_mask = Inr (index, all_mask)"
| "build_index_loop ((L, words) # rest) index all_mask =
     (let m = length words in
      if m = 0 then build_index_loop rest index all_mask
      else (case pos_tables_loop words [0..<L] [] of
              Inl e \<Rightarrow> Inl e
            | Inr pos_tables \<Rightarrow>
                build_index_loop rest (index(L \<mapsto> pos_tables)) (all_mask(L \<mapsto> push_bit m 1 - 1))))"

definition build_index ::
  "wordsdict \<Rightarrow> error + ((nat \<rightharpoonup> table) \<times> (nat \<rightharpoonup> bitset))" where
  "build_index words_by_len = build_index_loop words_by_len Map.empty Map.empty"

text \<open>The two results of \<^verbatim>\<open>build_index\<close>, empty when it raises.\<close>

definition index_of :: "wordsdict \<Rightarrow> (nat \<rightharpoonup> table)" where
  "index_of words_by_len = (case build_index words_by_len of Inl e \<Rightarrow> Map.empty | Inr r \<Rightarrow> fst r)"

definition all_mask_of :: "wordsdict \<Rightarrow> (nat \<rightharpoonup> bitset)" where
  "all_mask_of words_by_len = (case build_index words_by_len of Inl e \<Rightarrow> Map.empty | Inr r \<Rightarrow> snd r)"

section \<open>Propagation\<close>

function allowed_words_for_pos_loop :: "bitset list \<Rightarrow> bitset \<Rightarrow> bitset \<Rightarrow> error + bitset" where
  "allowed_words_for_pos_loop index_pos m out =
     (if m = 0 then Inr out
      else (let lsb = lowbit m; letter = bit_length lsb - 1 in
            case getitem index_pos (int letter) of
              Inl e \<Rightarrow> Inl e
            | Inr b \<Rightarrow> allowed_words_for_pos_loop index_pos (m XOR lsb) (out OR b)))"
  by pat_completeness auto
termination
  by (relation "measure (\<lambda>(index_pos, m, out). m)") (simp_all add: xor_lowbit_less)

declare allowed_words_for_pos_loop.simps [simp del]

definition allowed_words_for_pos :: "bitset list \<Rightarrow> bitset \<Rightarrow> error + bitset" where
  "allowed_words_for_pos index_pos allowed_letters_mask =
     allowed_words_for_pos_loop index_pos allowed_letters_mask 0"

fun compute_path_candidates_loop ::
  "table \<Rightarrow> bitset list \<Rightarrow> (nat \<times> int) list \<Rightarrow> bitset \<Rightarrow> error + bitset" where
  "compute_path_candidates_loop idxL domains [] cand = Inr cand"
| "compute_path_candidates_loop idxL domains ((pos, cell) # rest) cand =
     (case getitem domains cell of
        Inl e \<Rightarrow> Inl e
      | Inr allowed \<Rightarrow>
          if allowed = 0 then Inr 0
          else (case getitem idxL (int pos) of
                  Inl e \<Rightarrow> Inl e
                | Inr index_pos \<Rightarrow>
                    (case allowed_words_for_pos index_pos allowed of
                       Inl e \<Rightarrow> Inl e
                     | Inr a \<Rightarrow>
                         (let cand' = cand AND a in
                          if cand' = 0 then Inr 0
                          else compute_path_candidates_loop idxL domains rest cand'))))"

definition compute_path_candidates ::
  "int list \<Rightarrow> nat \<Rightarrow> bitset list \<Rightarrow> (nat \<rightharpoonup> table) \<Rightarrow> (nat \<rightharpoonup> bitset) \<Rightarrow> error + bitset" where
  "compute_path_candidates path_cells L domains index all_mask =
     (case index L of
        None \<Rightarrow> Inr 0
      | Some idxL \<Rightarrow>
          (case all_mask L of
             None \<Rightarrow> Inl KeyError
           | Some cand \<Rightarrow> compute_path_candidates_loop idxL domains (enumerate 0 path_cells) cand))"

fun possible_letters_at_pos_loop :: "bitset \<Rightarrow> bitset list \<Rightarrow> nat list \<Rightarrow> bitset \<Rightarrow> error + bitset" where
  "possible_letters_at_pos_loop cands index_pos [] msk = Inr msk"
| "possible_letters_at_pos_loop cands index_pos (letter # rest) msk =
     (case getitem index_pos (int letter) of
        Inl e \<Rightarrow> Inl e
      | Inr b \<Rightarrow>
          if cands AND b \<noteq> 0
          then possible_letters_at_pos_loop cands index_pos rest (msk OR push_bit letter 1)
          else possible_letters_at_pos_loop cands index_pos rest msk)"

definition possible_letters_at_pos :: "bitset \<Rightarrow> bitset list \<Rightarrow> error + bitset" where
  "possible_letters_at_pos cands index_pos =
     possible_letters_at_pos_loop cands index_pos [0..<26] 0"

text \<open>
  One pass of the \<^verbatim>\<open>while changed\<close> loop of \<^verbatim>\<open>propagate\<close> is three loops. Each returns
  the lists as the code has left them, with a flag that is \<open>False\<close> when the code has executed
  \<^verbatim>\<open>return False\<close>.
\<close>

fun update_path_cands ::
  "(nat \<rightharpoonup> table) \<Rightarrow> (nat \<rightharpoonup> bitset) \<Rightarrow> bitset list \<Rightarrow> (nat \<times> path) list \<Rightarrow> bitset list \<Rightarrow> bool
     \<Rightarrow> error + (bool \<times> bitset list \<times> bool)"
where
  "update_path_cands index all_mask domains [] path_cands changed = Inr (True, path_cands, changed)"
| "update_path_cands index all_mask domains ((pid, (cells, L)) # rest) path_cands changed =
     (case compute_path_candidates cells L domains index all_mask of
        Inl e \<Rightarrow> Inl e
      | Inr new_pc \<Rightarrow>
          if new_pc = 0 then Inr (False, path_cands, changed)
          else (case getitem path_cands (int pid) of
                  Inl e \<Rightarrow> Inl e
                | Inr old \<Rightarrow>
                    if new_pc \<noteq> old
                    then update_path_cands index all_mask domains rest (path_cands[pid := new_pc]) True
                    else update_path_cands index all_mask domains rest path_cands changed))"

fun new_domains_cells ::
  "bitset \<Rightarrow> table \<Rightarrow> (nat \<times> int) list \<Rightarrow> bitset list \<Rightarrow> error + bitset list option" where
  "new_domains_cells cands idxL [] new_domains = Inr (Some new_domains)"
| "new_domains_cells cands idxL ((pos, cell) # rest) new_domains =
     (case getitem new_domains cell of
        Inl e \<Rightarrow> Inl e
      | Inr old \<Rightarrow>
          (case getitem idxL (int pos) of
             Inl e \<Rightarrow> Inl e
           | Inr index_pos \<Rightarrow>
               (case possible_letters_at_pos cands index_pos of
                  Inl e \<Rightarrow> Inl e
                | Inr letters \<Rightarrow>
                    (case setitem new_domains cell (old AND letters) of
                       Inl e \<Rightarrow> Inl e
                     | Inr new_domains' \<Rightarrow>
                         if old AND letters = 0 then Inr None
                         else new_domains_cells cands idxL rest new_domains'))))"

fun new_domains_loop ::
  "(nat \<rightharpoonup> table) \<Rightarrow> bitset list \<Rightarrow> (nat \<times> path) list \<Rightarrow> bitset list \<Rightarrow> error + bitset list option"
where
  "new_domains_loop index path_cands [] new_domains = Inr (Some new_domains)"
| "new_domains_loop index path_cands ((pid, (cells, L)) # rest) new_domains =
     (case getitem path_cands (int pid) of
        Inl e \<Rightarrow> Inl e
      | Inr cands \<Rightarrow>
          (case index L of
             None \<Rightarrow> Inl KeyError
           | Some idxL \<Rightarrow>
               (case new_domains_cells cands idxL (enumerate 0 cells) new_domains of
                  Inl e \<Rightarrow> Inl e
                | Inr None \<Rightarrow> Inr None
                | Inr (Some new_domains') \<Rightarrow> new_domains_loop index path_cands rest new_domains')))"

fun intersect_domains ::
  "bitset list \<Rightarrow> nat list \<Rightarrow> bitset list \<Rightarrow> bool \<Rightarrow> error + (bool \<times> bitset list \<times> bool)" where
  "intersect_domains new_domains [] domains changed = Inr (True, domains, changed)"
| "intersect_domains new_domains (i # rest) domains changed =
     (case getitem new_domains (int i) of
        Inl e \<Rightarrow> Inl e
      | Inr a \<Rightarrow>
          (case getitem domains (int i) of
             Inl e \<Rightarrow> Inl e
           | Inr b \<Rightarrow>
               (let nd = a AND b in
                if nd = 0 then Inr (False, domains, changed)
                else if nd \<noteq> b then intersect_domains new_domains rest (domains[i := nd]) True
                else intersect_domains new_domains rest domains changed)))"

text \<open>The result of a pass is \<open>(ok, domains, path_cands, changed)\<close>.\<close>

definition propagate_pass ::
  "bitset list \<Rightarrow> bitset list \<Rightarrow> path list \<Rightarrow> (nat \<rightharpoonup> table) \<Rightarrow> (nat \<rightharpoonup> bitset) \<Rightarrow> nat
     \<Rightarrow> error + (bool \<times> bitset list \<times> bitset list \<times> bool)"
where
  "propagate_pass domains path_cands paths index all_mask n_cells =
     (case update_path_cands index all_mask domains (enumerate 0 paths) path_cands False of
        Inl e \<Rightarrow> Inl e
      | Inr (ok1, path_cands1, changed1) \<Rightarrow>
          if \<not> ok1 then Inr (False, domains, path_cands1, changed1)
          else (case new_domains_loop index path_cands1 (enumerate 0 paths) (replicate n_cells ALL_letters) of
                  Inl e \<Rightarrow> Inl e
                | Inr None \<Rightarrow> Inr (False, domains, path_cands1, changed1)
                | Inr (Some new_domains) \<Rightarrow>
                    (case intersect_domains new_domains [0..<n_cells] domains changed1 of
                       Inl e \<Rightarrow> Inl e
                     | Inr (ok3, domains3, changed3) \<Rightarrow> Inr (ok3, domains3, path_cands1, changed3))))"

subsection \<open>The fixpoint loop\<close>

text \<open>
  The loop of \<^verbatim>\<open>propagate\<close> ends because a pass that asks for another one either takes a
  bit from some domain or, leaving the domains alone, brings every path's candidate set to the
  value \<^verbatim>\<open>compute_path_candidates\<close> gives for them. \<open>consistent\<close> says that the
  candidate sets have that value.
\<close>

lemma getitem_nat:
  "getitem xs (int k) = (if k < length xs then Inr (xs ! k) else Inl IndexError)"
  by (simp add: getitem_def norm_index_def)

definition consistent ::
  "(nat \<rightharpoonup> table) \<Rightarrow> (nat \<rightharpoonup> bitset) \<Rightarrow> path list \<Rightarrow> bitset list \<Rightarrow> bitset list \<Rightarrow> bool" where
  "consistent index all_mask paths domains path_cands \<longleftrightarrow>
     (\<forall>pid < length paths. pid < length path_cands \<and>
        compute_path_candidates (fst (paths ! pid)) (snd (paths ! pid)) domains index all_mask
          = Inr (path_cands ! pid))"

lemma update_path_cands_any:
  "update_path_cands index all_mask d (enumerate k ps) pc ch = Inr (ok, pc1, ch1) \<Longrightarrow>
     length pc1 = length pc \<and>
     (\<forall>i. pc1 ! i = pc ! i \<or>
          (k \<le> i \<and> i - k < length ps \<and> i < length pc \<and>
           compute_path_candidates (fst (ps ! (i - k))) (snd (ps ! (i - k))) d index all_mask
             = Inr (pc1 ! i)))"
proof (induction ps arbitrary: k pc ch)
  case Nil
  then show ?case by simp
next
  case (Cons p ps)
  obtain cells L where p: "p = (cells, L)" by (cases p)
  from Cons.prems obtain new_pc where
    c: "compute_path_candidates cells L d index all_mask = Inr new_pc"
    by (auto simp: p split: sum.splits)
  show ?case
  proof (cases "new_pc = 0")
    case True
    with Cons.prems c show ?thesis by (simp add: p)
  next
    case False
    with Cons.prems c have kl: "k < length pc"
      by (auto simp: p getitem_nat split: if_splits)
    show ?thesis
    proof (cases "new_pc = pc ! k")
      case True
      with Cons.prems c False kl have
        "update_path_cands index all_mask d (enumerate (Suc k) ps) pc ch = Inr (ok, pc1, ch1)"
        by (simp add: p getitem_nat)
      from Cons.IH [OF this] have len: "length pc1 = length pc" and
        ih: "\<And>i. pc1 ! i = pc ! i \<or>
          (Suc k \<le> i \<and> i - Suc k < length ps \<and> i < length pc \<and>
           compute_path_candidates (fst (ps ! (i - Suc k))) (snd (ps ! (i - Suc k))) d index all_mask
             = Inr (pc1 ! i))" by auto
      have "pc1 ! i = pc ! i \<or>
          (k \<le> i \<and> i - k < length (p # ps) \<and> i < length pc \<and>
           compute_path_candidates (fst ((p # ps) ! (i - k))) (snd ((p # ps) ! (i - k))) d index all_mask
             = Inr (pc1 ! i))" for i
      proof (cases "Suc k \<le> i")
        case True
        then have "i - k = Suc (i - Suc k)" by simp
        then show ?thesis using ih [of i] True by auto
      next
        case False
        then show ?thesis using ih [of i] by auto
      qed
      with len show ?thesis by blast
    next
      case neq: False
      with Cons.prems c False kl have
        r: "update_path_cands index all_mask d (enumerate (Suc k) ps) (pc[k := new_pc]) True
             = Inr (ok, pc1, ch1)"
        by (simp add: p getitem_nat)
      from Cons.IH [OF r] have len: "length pc1 = length pc" and
        ih: "\<And>i. pc1 ! i = pc[k := new_pc] ! i \<or>
          (Suc k \<le> i \<and> i - Suc k < length ps \<and> i < length pc \<and>
           compute_path_candidates (fst (ps ! (i - Suc k))) (snd (ps ! (i - Suc k))) d index all_mask
             = Inr (pc1 ! i))" by auto
      have "pc1 ! i = pc ! i \<or>
          (k \<le> i \<and> i - k < length (p # ps) \<and> i < length pc \<and>
           compute_path_candidates (fst ((p # ps) ! (i - k))) (snd ((p # ps) ! (i - k))) d index all_mask
             = Inr (pc1 ! i))" for i
      proof (cases "Suc k \<le> i")
        case True
        then have e: "i - k = Suc (i - Suc k)" by simp
        have "pc[k := new_pc] ! i = pc ! i" using True by simp
        then show ?thesis using ih [of i] True e by auto
      next
        case False
        show ?thesis
        proof (cases "i = k")
          case True
          from ih [of k] have "pc1 ! k = new_pc" using kl by simp
          then show ?thesis using True c kl by (simp add: p)
        next
          case ne: False
          then have "pc[k := new_pc] ! i = pc ! i" by simp
          then show ?thesis using ih [of i] False by auto
        qed
      qed
      with len show ?thesis by blast
    qed
  qed
qed

lemma update_path_cands_ok:
  "update_path_cands index all_mask d (enumerate k ps) pc ch = Inr (True, pc1, ch1) \<Longrightarrow>
     (\<forall>i < k. pc1 ! i = pc ! i) \<and>
     (\<forall>j < length ps. k + j < length pc \<and>
        (\<exists>c. c \<noteq> 0 \<and> pc1 ! (k + j) = c \<and>
        compute_path_candidates (fst (ps ! j)) (snd (ps ! j)) d index all_mask = Inr c)) \<and>
     (ch1 \<longleftrightarrow> ch \<or> pc1 \<noteq> pc)"
proof (induction ps arbitrary: k pc ch)
  case Nil
  then show ?case by simp
next
  case (Cons p ps)
  obtain cells L where p: "p = (cells, L)" by (cases p)
  from Cons.prems obtain new_pc where
    c: "compute_path_candidates cells L d index all_mask = Inr new_pc"
    by (auto simp: p split: sum.splits)
  from Cons.prems c have nz: "new_pc \<noteq> 0" by (auto simp: p split: if_splits)
  with Cons.prems c have kl: "k < length pc"
    by (auto simp: p getitem_nat split: if_splits)
  define pc' where "pc' = (if new_pc \<noteq> pc ! k then pc[k := new_pc] else pc)"
  define ch' where "ch' = (if new_pc \<noteq> pc ! k then True else ch)"
  have r: "update_path_cands index all_mask d (enumerate (Suc k) ps) pc' ch' = Inr (True, pc1, ch1)"
    using Cons.prems c nz kl by (simp add: p getitem_nat pc'_def ch'_def split: if_splits)
  have pk: "pc' ! k = new_pc" using kl by (simp add: pc'_def)
  have len': "length pc' = length pc" by (simp add: pc'_def)
  from Cons.IH [OF r] have
    a: "\<And>i. i < Suc k \<Longrightarrow> pc1 ! i = pc' ! i" and
    b: "\<And>j. j < length ps \<Longrightarrow> Suc k + j < length pc' \<and>
        (\<exists>c. c \<noteq> 0 \<and> pc1 ! (Suc k + j) = c \<and>
        compute_path_candidates (fst (ps ! j)) (snd (ps ! j)) d index all_mask = Inr c)" and
    cc: "ch1 \<longleftrightarrow> ch' \<or> pc1 \<noteq> pc'" by auto
  have 1: "\<forall>i < k. pc1 ! i = pc ! i"
  proof (intro allI impI)
    fix i assume "i < k"
    then have "pc1 ! i = pc' ! i" using a [of i] by simp
    also have "\<dots> = pc ! i" using \<open>i < k\<close> by (simp add: pc'_def)
    finally show "pc1 ! i = pc ! i" .
  qed
  have 2: "\<forall>j < length (p # ps). k + j < length pc \<and>
        (\<exists>c. c \<noteq> 0 \<and> pc1 ! (k + j) = c \<and>
        compute_path_candidates (fst ((p # ps) ! j)) (snd ((p # ps) ! j)) d index all_mask = Inr c)"
  proof (intro allI impI)
    fix j assume j: "j < length (p # ps)"
    show "k + j < length pc \<and>
        (\<exists>c. c \<noteq> 0 \<and> pc1 ! (k + j) = c \<and>
        compute_path_candidates (fst ((p # ps) ! j)) (snd ((p # ps) ! j)) d index all_mask = Inr c)"
    proof (cases j)
      case 0
      have "pc1 ! k = new_pc" using a [of k] pk by simp
      then show ?thesis using 0 kl c nz by (simp add: p)
    next
      case (Suc j')
      with j have "j' < length ps" by simp
      from b [OF this] show ?thesis using Suc len' by simp
    qed
  qed
  have 3: "ch1 \<longleftrightarrow> ch \<or> pc1 \<noteq> pc"
  proof (cases "new_pc = pc ! k")
    case True
    then show ?thesis using cc by (simp add: pc'_def ch'_def)
  next
    case False
    have "pc1 ! k = new_pc" using a [of k] pk by simp
    then have "pc1 \<noteq> pc" using False by auto
    moreover have "ch1" using cc False by (simp add: ch'_def)
    ultimately show ?thesis by simp
  qed
  from 1 2 3 show ?case by blast
qed

lemma intersect_domains_sum:
  "intersect_domains nd is d ch = Inr (ok, d3, ch3) \<Longrightarrow>
     length d3 = length d \<and> sum_list d3 \<le> sum_list d \<and> (d3 \<noteq> d \<longrightarrow> sum_list d3 < sum_list d) \<and>
     (ok \<longrightarrow> (ch3 \<longleftrightarrow> ch \<or> d3 \<noteq> d))"
proof (induction "is" arbitrary: d ch)
  case Nil
  then show ?case by auto
next
  case (Cons i "is")
  from Cons.prems obtain a b where
    a: "getitem nd (int i) = Inr a" and b: "getitem d (int i) = Inr b"
    by (auto split: sum.splits)
  from b have il: "i < length d" and bd: "b = d ! i"
    by (auto simp: getitem_nat split: if_splits)
  show ?case
  proof (cases "a AND b = 0")
    case True
    with Cons.prems a b show ?thesis by simp
  next
    case nz: False
    show ?thesis
    proof (cases "a AND b = b")
      case True
      with Cons.prems a b nz have "intersect_domains nd is d ch = Inr (ok, d3, ch3)"
        by simp
      from Cons.IH [OF this] show ?thesis .
    next
      case False
      let ?d' = "d[i := a AND b]"
      from Cons.prems a b nz False have "intersect_domains nd is ?d' True = Inr (ok, d3, ch3)"
        by simp
      from Cons.IH [OF this] have ih: "length d3 = length ?d'" "sum_list d3 \<le> sum_list ?d'"
        "ok \<longrightarrow> ch3" by auto
      have "a AND b < b" using False and_le_nat2 [of a b] by simp
      moreover have "b \<le> sum_list d" using il bd by (simp add: member_le_sum_list)
      moreover have "sum_list ?d' = sum_list d + (a AND b) - b"
        using il bd by (simp add: sum_list_update)
      ultimately have "sum_list ?d' < sum_list d" by linarith
      with ih show ?thesis by auto
    qed
  qed
qed


definition stale ::
  "(nat \<rightharpoonup> table) \<Rightarrow> (nat \<rightharpoonup> bitset) \<Rightarrow> path list \<Rightarrow> bitset list \<Rightarrow> bitset list \<Rightarrow> nat" where
  "stale index all_mask paths domains path_cands =
     (if consistent index all_mask paths domains path_cands then 0 else 1)"

lemma update_path_cands_consistent:
  assumes "update_path_cands index all_mask d (enumerate 0 paths) pc False = Inr (True, pc1, ch1)"
  shows "consistent index all_mask paths d pc1"
    and "ch1 \<Longrightarrow> \<not> consistent index all_mask paths d pc"
    and "\<not> ch1 \<Longrightarrow> pc1 = pc"
proof -
  from update_path_cands_ok [OF assms] have
    b: "\<And>j. j < length paths \<Longrightarrow> j < length pc \<and>
        compute_path_candidates (fst (paths ! j)) (snd (paths ! j)) d index all_mask = Inr (pc1 ! j)"
    and c: "ch1 \<longleftrightarrow> pc1 \<noteq> pc" by auto
  from update_path_cands_any [OF assms] have len: "length pc1 = length pc" and
    a: "\<And>i. pc1 ! i = pc ! i \<or> (i < length paths \<and> i < length pc)" by auto
  show "consistent index all_mask paths d pc1"
    unfolding consistent_def using b len by simp
  show "\<not> ch1 \<Longrightarrow> pc1 = pc" using c by simp
  show "\<not> consistent index all_mask paths d pc" if "ch1"
  proof
    assume co: "consistent index all_mask paths d pc"
    have "pc1 ! i = pc ! i" for i
    proof (cases "i < length paths")
      case True
      with co b [OF True] show ?thesis unfolding consistent_def by auto
    next
      case False
      with a [of i] show ?thesis by simp
    qed
    with len have "pc1 = pc" by (simp add: list_eq_iff_nth_eq)
    with c that show False by simp
  qed
qed

lemma propagate_pass_decrease:
  assumes "propagate_pass d pc paths index all_mask n = Inr (True, d', pc', True)"
  shows "2 * sum_list d' + stale index all_mask paths d' pc'
           < 2 * sum_list d + stale index all_mask paths d pc"
proof -
  from assms obtain ch1 nd where
    u: "update_path_cands index all_mask d (enumerate 0 paths) pc False = Inr (True, pc', ch1)" and
    i: "intersect_domains nd [0..<n] d ch1 = Inr (True, d', True)"
    unfolding propagate_pass_def
    by (auto split: sum.splits prod.splits if_splits option.splits)
  from intersect_domains_sum [OF i] have
    s: "d' \<noteq> d \<longrightarrow> sum_list d' < sum_list d" and c: "ch1 \<or> d' \<noteq> d" by auto
  show ?thesis
  proof (cases "d' = d")
    case True
    with c have ch1 by simp
    from update_path_cands_consistent(1,2) [OF u] this True show ?thesis
      by (simp add: stale_def)
  next
    case False
    with s have "sum_list d' < sum_list d" by simp
    then show ?thesis by (simp add: stale_def)
  qed
qed

function propagate ::
  "bitset list \<Rightarrow> bitset list \<Rightarrow> path list \<Rightarrow> (nat \<rightharpoonup> table) \<Rightarrow> (nat \<rightharpoonup> bitset) \<Rightarrow> nat
     \<Rightarrow> error + (bool \<times> bitset list \<times> bitset list)"
where
  "propagate domains path_cands paths index all_mask n_cells =
     (case propagate_pass domains path_cands paths index all_mask n_cells of
        Inl e \<Rightarrow> Inl e
      | Inr (ok, domains', path_cands', changed) \<Rightarrow>
          if \<not> ok then Inr (False, domains', path_cands')
          else if changed then propagate domains' path_cands' paths index all_mask n_cells
          else Inr (True, domains', path_cands'))"
  by pat_completeness auto
termination
proof (relation "measure (\<lambda>(domains, path_cands, paths, index, all_mask, n_cells).
         2 * sum_list domains + stale index all_mask paths domains path_cands)")
  show "wf (measure (\<lambda>(domains, path_cands, paths, index, all_mask, n_cells).
         2 * sum_list domains + stale index all_mask paths domains path_cands))" by simp
next
  fix domains path_cands :: "bitset list" and paths :: "path list"
    and index :: "nat \<rightharpoonup> table" and all_mask :: "nat \<rightharpoonup> bitset" and n_cells :: nat
    and x2 x1 x2a x1a x2b x1b x2c
  assume "propagate_pass domains path_cands paths index all_mask n_cells = Inr x2"
    "(x1, x2a) = x2" "(x1a, x2b) = x2a" "(x1b, x2c) = x2b" "\<not> \<not> x1" "x2c"
  then have "propagate_pass domains path_cands paths index all_mask n_cells = Inr (True, x1a, x1b, True)"
    by auto
  from propagate_pass_decrease [OF this]
  show "((x1a, x1b, paths, index, all_mask, n_cells), domains, path_cands, paths, index, all_mask, n_cells)
          \<in> measure (\<lambda>(domains, path_cands, paths, index, all_mask, n_cells).
         2 * sum_list domains + stale index all_mask paths domains path_cands)" by simp
qed

declare propagate.simps [simp del]

fun propagate_bounded ::
  "nat \<Rightarrow> bitset list \<Rightarrow> bitset list \<Rightarrow> path list \<Rightarrow> (nat \<rightharpoonup> table) \<Rightarrow> (nat \<rightharpoonup> bitset) \<Rightarrow> nat
     \<Rightarrow> (error + (bool \<times> bitset list \<times> bitset list)) option"
where
  "propagate_bounded 0 domains path_cands paths index all_mask n_cells = None"
| "propagate_bounded (Suc k) domains path_cands paths index all_mask n_cells =
     (case propagate_pass domains path_cands paths index all_mask n_cells of
        Inl e \<Rightarrow> Some (Inl e)
      | Inr (ok, domains', path_cands', changed) \<Rightarrow>
          if \<not> ok then Some (Inr (False, domains', path_cands'))
          else if changed then propagate_bounded k domains' path_cands' paths index all_mask n_cells
          else Some (Inr (True, domains', path_cands')))"


section \<open>Search\<close>

text \<open>\<^verbatim>\<open>d & (d - 1)\<close>: for \<^verbatim>\<open>d = 0\<close> the subtraction gives \<^verbatim>\<open>-1\<close>, so it is done in the integers.\<close>

fun solved :: "bitset list \<Rightarrow> bool" where
  "solved [] = True"
| "solved (d # rest) = (if int d AND (int d - 1) \<noteq> 0 then False else solved rest)"

fun choose_branch_path_loop :: "(nat \<times> bitset) list \<Rightarrow> nat option \<Rightarrow> nat \<Rightarrow> nat option" where
  "choose_branch_path_loop [] best best_cnt = best"
| "choose_branch_path_loop ((pid, c) # rest) best best_cnt =
     (let cnt = bitcount c in
      if 1 < cnt \<and> cnt < best_cnt then choose_branch_path_loop rest (Some pid) cnt
      else choose_branch_path_loop rest best best_cnt)"

definition choose_branch_path :: "bitset list \<Rightarrow> nat option" where
  "choose_branch_path path_cands = choose_branch_path_loop (enumerate 0 path_cands) None (10 ^ 9)"

text \<open>
  The inner loop of a branch forces the cells of the path to the letters of the word. The flag
  is \<^verbatim>\<open>ok\<close>; \<^verbatim>\<open>1 << letter\<close> raises \<^verbatim>\<open>ValueError\<close> for a negative \<^verbatim>\<open>letter\<close>.
\<close>

fun force_cells :: "pystr \<Rightarrow> (nat \<times> int) list \<Rightarrow> bitset list \<Rightarrow> error + (bool \<times> bitset list)" where
  "force_cells w [] d2 = Inr (True, d2)"
| "force_cells w ((pos, cell) # rest) d2 =
     (case getitem w (int pos) of
        Inl e \<Rightarrow> Inl e
      | Inr ch \<Rightarrow>
          (let letter = int ch - 65 in
           if letter < 0 then Inl ValueError
           else (let msk = push_bit (nat letter) 1 in
                 case getitem d2 cell of
                   Inl e \<Rightarrow> Inl e
                 | Inr dv \<Rightarrow>
                     if dv AND msk = 0 then Inr (False, d2)
                     else (case setitem d2 cell msk of
                             Inl e \<Rightarrow> Inl e
                           | Inr d2' \<Rightarrow> force_cells w rest d2'))))"

text \<open>
  \<^verbatim>\<open>solve\<close> is recursive without a bound of its own; Python bounds the depth of the
  recursion and raises \<^verbatim>\<open>RecursionError\<close> beyond it. The first argument of \<open>solve\<close> is
  the number of nested calls of \<^verbatim>\<open>solve\<close> still allowed.

  The body of \<^verbatim>\<open>solve\<close> up to its \<^verbatim>\<open>for\<close> loop is \<open>solve_node\<close>: it either returns
  (\<open>Answer\<close>) or reaches the loop with the lists \<^verbatim>\<open>propagate\<close> has left, the chosen path
  and the word ids to try (\<open>Branch\<close>). The body of the loop up to the recursive call is
  \<open>branch_child\<close>: the copies \<^verbatim>\<open>d2\<close> and \<^verbatim>\<open>pc2\<close>, or \<open>None\<close> after \<^verbatim>\<open>continue\<close>.
\<close>

datatype node =
    Answer "bitset list option"
  | Branch "bitset list" "bitset list" nat "int list" "pystr list" "nat list"

definition solve_node ::
  "bitset list \<Rightarrow> bitset list \<Rightarrow> path list \<Rightarrow> (nat \<rightharpoonup> table) \<Rightarrow> (nat \<rightharpoonup> bitset) \<Rightarrow> nat
     \<Rightarrow> wordsdict \<Rightarrow> error + node" where
  "solve_node domains path_cands paths index all_mask n_cells words_by_len =
     (case propagate domains path_cands paths index all_mask n_cells of
        Inl e \<Rightarrow> Inl e
      | Inr (ok, domains', path_cands') \<Rightarrow>
          if \<not> ok then Inr (Answer None)
          else if solved domains' then Inr (Answer (Some domains'))
          else (case choose_branch_path path_cands' of
                  None \<Rightarrow> Inr (Answer None)
                | Some pid \<Rightarrow>
                    (case getitem paths (int pid) of
                       Inl e \<Rightarrow> Inl e
                     | Inr (cells, L) \<Rightarrow>
                         (case getitem path_cands' (int pid) of
                            Inl e \<Rightarrow> Inl e
                          | Inr candidates \<Rightarrow>
                              Inr (Branch domains' path_cands' pid cells
                                     (dict_get words_by_len L) (iter_bits candidates))))))"

definition branch_child ::
  "bitset list \<Rightarrow> bitset list \<Rightarrow> nat \<Rightarrow> int list \<Rightarrow> pystr list \<Rightarrow> nat
     \<Rightarrow> error + (bitset list \<times> bitset list) option" where
  "branch_child domains path_cands pid cells words wid =
     (case getitem words (int wid) of
        Inl e \<Rightarrow> Inl e
      | Inr w \<Rightarrow>
          (case setitem path_cands (int pid) (push_bit wid 1) of
             Inl e \<Rightarrow> Inl e
           | Inr pc2 \<Rightarrow>
               (case force_cells w (enumerate 0 cells) domains of
                  Inl e \<Rightarrow> Inl e
                | Inr (ok, d2) \<Rightarrow> if \<not> ok then Inr None else Inr (Some (d2, pc2)))))"

function solve ::
  "nat \<Rightarrow> bitset list \<Rightarrow> bitset list \<Rightarrow> path list \<Rightarrow> (nat \<rightharpoonup> table) \<Rightarrow> (nat \<rightharpoonup> bitset) \<Rightarrow> nat
     \<Rightarrow> wordsdict \<Rightarrow> error + bitset list option"
and branches ::
  "nat \<Rightarrow> bitset list \<Rightarrow> bitset list \<Rightarrow> path list \<Rightarrow> (nat \<rightharpoonup> table) \<Rightarrow> (nat \<rightharpoonup> bitset) \<Rightarrow> nat
     \<Rightarrow> wordsdict \<Rightarrow> nat \<Rightarrow> int list \<Rightarrow> pystr list \<Rightarrow> nat list \<Rightarrow> error + bitset list option"
where
  "solve 0 domains path_cands paths index all_mask n_cells words_by_len = Inl RecursionError"
| "solve (Suc depth) domains path_cands paths index all_mask n_cells words_by_len =
     (case solve_node domains path_cands paths index all_mask n_cells words_by_len of
        Inl e \<Rightarrow> Inl e
      | Inr (Answer r) \<Rightarrow> Inr r
      | Inr (Branch domains' path_cands' pid cells words wids) \<Rightarrow>
          branches depth domains' path_cands' paths index all_mask n_cells words_by_len
            pid cells words wids)"
| "branches depth domains path_cands paths index all_mask n_cells words_by_len pid cells words [] =
     Inr None"
| "branches depth domains path_cands paths index all_mask n_cells words_by_len pid cells words
     (wid # rest) =
     (case branch_child domains path_cands pid cells words wid of
        Inl e \<Rightarrow> Inl e
      | Inr None \<Rightarrow>
          branches depth domains path_cands paths index all_mask n_cells words_by_len
            pid cells words rest
      | Inr (Some (d2, pc2)) \<Rightarrow>
          (case solve depth d2 pc2 paths index all_mask n_cells words_by_len of
             Inl e \<Rightarrow> Inl e
           | Inr (Some res) \<Rightarrow> Inr (Some res)
           | Inr None \<Rightarrow>
               branches depth domains path_cands paths index all_mask n_cells words_by_len
                 pid cells words rest))"
  by pat_completeness auto
termination
  by (relation "inv_image (less_than <*lex*> less_than)
        (\<lambda>x. case x of
           Inl (depth, domains, path_cands, paths, index, all_mask, n_cells, words_by_len) \<Rightarrow>
             (depth, 0)
         | Inr (depth, domains, path_cands, paths, index, all_mask, n_cells, words_by_len,
                pid, cells, words, wids) \<Rightarrow> (depth, Suc (length wids)))")
    auto


section \<open>Main program\<close>

text \<open>\<^verbatim>\<open>chr\<close> raises \<^verbatim>\<open>ValueError\<close> outside \<^verbatim>\<open>range(0x110000)\<close>.\<close>

definition mask_to_letter :: "bitset \<Rightarrow> error + nat" where
  "mask_to_letter msk =
     (let cp = 65 + (int (bit_length msk) - 1) in
      if 0 \<le> cp \<and> cp < 1114112 then Inr (nat cp) else Inl ValueError)"

text \<open>
  \<^verbatim>\<open>load_paths\<close> receives the parsed JSON: one list of \<^verbatim>\<open>(row, column)\<close> pairs per item.
\<close>

fun scan_coords :: "(int \<times> int) list \<Rightarrow> int \<Rightarrow> int \<Rightarrow> int \<times> int" where
  "scan_coords [] max_r max_c = (max_r, max_c)"
| "scan_coords ((r, c) # rest) max_r max_c =
     scan_coords rest (if r > max_r then r else max_r) (if c > max_c then c else max_c)"

fun load_paths_loop ::
  "(int \<times> int) list list \<Rightarrow> ((int \<times> int) list \<times> nat) list \<Rightarrow> int \<Rightarrow> int \<Rightarrow> nat
     \<Rightarrow> ((int \<times> int) list \<times> nat) list \<times> int \<times> int \<times> nat" where
  "load_paths_loop [] raw max_r max_c max_len = (raw, max_r + 1, max_c + 1, max_len)"
| "load_paths_loop (coords # rest) raw max_r max_c max_len =
     (let L = length coords;
          (max_r', max_c') = scan_coords coords max_r max_c
      in load_paths_loop rest (raw @ [(coords, L)]) max_r' max_c'
           (if L > max_len then L else max_len))"

definition load_paths ::
  "(int \<times> int) list list \<Rightarrow> ((int \<times> int) list \<times> nat) list \<times> int \<times> int \<times> nat" where
  "load_paths data = load_paths_loop data [] 0 0 0"

fun join_spaces :: "nat list \<Rightarrow> pystr" where
  "join_spaces [] = []"
| "join_spaces [x] = [x]"
| "join_spaces (x # y # rest) = x # 32 # join_spaces (y # rest)"

fun print_row :: "bitset list \<Rightarrow> int \<Rightarrow> int \<Rightarrow> nat list \<Rightarrow> error + nat list" where
  "print_row sol r ncols [] = Inr []"
| "print_row sol r ncols (c # rest) =
     (case getitem sol (r * ncols + int c) of
        Inl e \<Rightarrow> Inl e
      | Inr msk \<Rightarrow>
          (case mask_to_letter msk of
             Inl e \<Rightarrow> Inl e
           | Inr ch \<Rightarrow>
               (case print_row sol r ncols rest of
                  Inl e \<Rightarrow> Inl e
                | Inr row \<Rightarrow> Inr (ch # row))))"

fun print_board :: "bitset list \<Rightarrow> int \<Rightarrow> nat list \<Rightarrow> error + pystr list" where
  "print_board sol ncols [] = Inr []"
| "print_board sol ncols (r # rest) =
     (case print_row sol (int r) ncols [0..<nat ncols] of
        Inl e \<Rightarrow> Inl e
      | Inr row \<Rightarrow>
          (case print_board sol ncols rest of
             Inl e \<Rightarrow> Inl e
           | Inr lines \<Rightarrow> Inr (join_spaces row # lines)))"

definition no_solution_line :: pystr where
  "no_solution_line = map of_char ''No solution found.''"

text \<open>
  \<open>main\<close> returns the lines the program prints. Its inputs are the contents of the two files,
  the three string built-ins and the recursion depth Python allows.
\<close>

definition linear_paths :: "((int \<times> int) list \<times> nat) list \<Rightarrow> int \<Rightarrow> path list" where
  "linear_paths raw_paths ncols = map (\<lambda>(coords, L). (map (\<lambda>(r, c). r * ncols + c) coords, L)) raw_paths"

definition initial_cands :: "(nat \<rightharpoonup> bitset) \<Rightarrow> path list \<Rightarrow> bitset list" where
  "initial_cands all_mask paths =
     map (\<lambda>(cells, L). case all_mask L of None \<Rightarrow> 0 | Some m \<Rightarrow> m) paths"

definition main ::
  "(pystr \<Rightarrow> pystr) \<Rightarrow> (pystr \<Rightarrow> bool) \<Rightarrow> (pystr \<Rightarrow> pystr) \<Rightarrow> nat
     \<Rightarrow> (int \<times> int) list list \<Rightarrow> pystr list \<Rightarrow> error + pystr list" where
  "main strip isalpha upper depth data lines =
     (case load_paths data of
        (raw_paths, nrows, ncols, max_len) \<Rightarrow>
          (let words_by_len = load_dictionary strip isalpha upper max_len lines in
           case build_index words_by_len of
             Inl e \<Rightarrow> Inl e
           | Inr (index, all_mask) \<Rightarrow>
               (let paths = linear_paths raw_paths ncols;
                    n_cells = nat (nrows * ncols);
                    domains = replicate n_cells ALL_letters;
                    path_cands = initial_cands all_mask paths
                in case solve depth domains path_cands paths index all_mask n_cells words_by_len of
                     Inl e \<Rightarrow> Inl e
                   | Inr None \<Rightarrow> Inr [no_solution_line]
                   | Inr (Some sol) \<Rightarrow> print_board sol ncols [0..<nat nrows])))"

text \<open>
  The three string built-ins on strings whose code points are below 256, for running the
  program on concrete inputs: Python's \<^verbatim>\<open>str.strip\<close>, \<^verbatim>\<open>str.isalpha\<close> and
  \<^verbatim>\<open>str.upper\<close> there (\<^verbatim>\<open>upper\<close> turns the sharp s into two letters).
\<close>

definition latin1_space :: "nat \<Rightarrow> bool" where
  "latin1_space c \<longleftrightarrow> (9 \<le> c \<and> c \<le> 13) \<or> (28 \<le> c \<and> c \<le> 32) \<or> c = 133 \<or> c = 160"

definition latin1_strip :: "pystr \<Rightarrow> pystr" where
  "latin1_strip w = rev (dropWhile latin1_space (rev (dropWhile latin1_space w)))"

definition latin1_alpha :: "nat \<Rightarrow> bool" where
  "latin1_alpha c \<longleftrightarrow>
     (65 \<le> c \<and> c \<le> 90) \<or> (97 \<le> c \<and> c \<le> 122) \<or> c = 170 \<or> c = 181 \<or> c = 186 \<or>
     (192 \<le> c \<and> c \<le> 214) \<or> (216 \<le> c \<and> c \<le> 246) \<or> (248 \<le> c \<and> c \<le> 255)"

definition latin1_isalpha :: "pystr \<Rightarrow> bool" where
  "latin1_isalpha w \<longleftrightarrow> w \<noteq> [] \<and> list_all latin1_alpha w"

definition latin1_upper_char :: "nat \<Rightarrow> pystr" where
  "latin1_upper_char c =
     (if (97 \<le> c \<and> c \<le> 122) \<or> (224 \<le> c \<and> c \<le> 246) \<or> (248 \<le> c \<and> c \<le> 254) then [c - 32]
      else if c = 181 then [924]
      else if c = 223 then [83, 83]
      else if c = 255 then [376]
      else [c])"

definition latin1_upper :: "pystr \<Rightarrow> pystr" where
  "latin1_upper w = concat (map latin1_upper_char w)"

section \<open>Termination of propagation\<close>

lemma propagate_bounded_enough:
  "2 * sum_list d + stale index all_mask paths d pc < k \<Longrightarrow>
     propagate_bounded k d pc paths index all_mask n = Some (propagate d pc paths index all_mask n)"
proof (induction d pc paths index all_mask n arbitrary: k rule: propagate.induct)
  case (1 d pc paths index all_mask n)
  from "1.prems" obtain k' where k: "k = Suc k'" by (cases k) auto
  show ?case
  proof (cases "propagate_pass d pc paths index all_mask n")
    case (Inl e)
    then show ?thesis by (simp add: k propagate.simps [of d pc])
  next
    case (Inr r)
    obtain ok d' pc' ch where r: "r = (ok, d', pc', ch)" by (cases r)
    show ?thesis
    proof (cases "ok \<and> ch")
      case False
      then show ?thesis using Inr r by (auto simp: k propagate.simps [of d pc])
    next
      case True
      with Inr r have p: "propagate_pass d pc paths index all_mask n = Inr (True, d', pc', True)"
        by simp
      from propagate_pass_decrease [OF p] "1.prems" k
      have "2 * sum_list d' + stale index all_mask paths d' pc' < k'" by simp
      from "1.IH" [OF Inr r [symmetric] refl refl _ _ this] True
      have "propagate_bounded k' d' pc' paths index all_mask n
              = Some (propagate d' pc' paths index all_mask n)" by simp
      then show ?thesis using p by (simp add: k propagate.simps [of d pc])
    qed
  qed
qed

text \<open>
  Claim C6 (termination of the propagation fixpoint loop). For every list of cell domains, every
  list of path candidate sets, every list of paths and every word index, the loop of
  \<^verbatim>\<open>propagate\<close> stops: run with a budget of \<open>2 * sum_list domains + 2\<close> passes, it
  reaches a pass with no change, a \<^verbatim>\<open>return False\<close> or an exception within the budget, and
  what it returns is the value of \<open>propagate\<close>.
\<close>

theorem propagate_terminates:
  "propagate_bounded (2 * sum_list domains + 2) domains path_cands paths index all_mask n_cells
     = Some (propagate domains path_cands paths index all_mask n_cells)"
  by (rule propagate_bounded_enough) (simp add: stale_def)


section \<open>Running the program on concrete inputs\<close>

text \<open>The equations that evaluate the functions above on numerals.\<close>

lemma replicate_numeral: "replicate (numeral k) x = x # replicate (pred_numeral k) x"
  by (simp add: numeral_eq_Suc)

lemmas run_simps =
  build_index_def index_of_def all_mask_of_def getitem_def setitem_def norm_index_def
  propagate_pass_def compute_path_candidates_def allowed_words_for_pos_def
  possible_letters_at_pos_def ALL_letters_def Let_def enumerate_eq_zip
  lowbit_rec bit_length.simps bitcount.simps iter_bits.simps
  allowed_words_for_pos_loop.simps propagate.simps replicate_numeral upt_rec numeral_2_eq_2 [symmetric]

lemmas latin1_simps =
  load_dictionary_def latin1_strip_def latin1_isalpha_def latin1_upper_def latin1_upper_char_def
  latin1_alpha_def latin1_space_def

lemma build_index_of:
  "build_index wbl = Inr r \<Longrightarrow> build_index wbl = Inr (index_of wbl, all_mask_of wbl)"
  by (simp add: index_of_def all_mask_of_def)


section \<open>One pass of propagation\<close>

lemma intersect_domains_subset:
  "intersect_domains nd is d ch = Inr (ok, d3, ch3) \<Longrightarrow>
     length d3 = length d \<and> (\<forall>i j. bit (d3 ! i) j \<longrightarrow> bit (d ! i) j)"
proof (induction "is" arbitrary: d ch)
  case Nil
  then show ?case by auto
next
  case (Cons i "is")
  from Cons.prems obtain a b where
    a: "getitem nd (int i) = Inr a" and b: "getitem d (int i) = Inr b"
    by (auto split: sum.splits)
  from b have il: "i < length d" and bd: "b = d ! i"
    by (auto simp: getitem_nat split: if_splits)
  show ?case
  proof (cases "a AND b = 0")
    case True
    with Cons.prems a b show ?thesis by simp
  next
    case nz: False
    show ?thesis
    proof (cases "a AND b = b")
      case True
      with Cons.prems a b nz have "intersect_domains nd is d ch = Inr (ok, d3, ch3)"
        by simp
      from Cons.IH [OF this] show ?thesis .
    next
      case False
      let ?d' = "d[i := a AND b]"
      from Cons.prems a b nz False have "intersect_domains nd is ?d' True = Inr (ok, d3, ch3)"
        by simp
      from Cons.IH [OF this] have len: "length d3 = length d" and
        ih: "\<And>k j. bit (d3 ! k) j \<Longrightarrow> bit (?d' ! k) j" by auto
      have "bit (d ! k) j" if "bit (d3 ! k) j" for k j
      proof (cases "k = i")
        case True
        with ih [OF that] il have "bit (a AND b) j" by simp
        then show ?thesis using True bd by (simp add: bit_and_iff)
      next
        case False
        with ih [OF that] show ?thesis by simp
      qed
      with len show ?thesis by blast
    qed
  qed
qed

lemma compute_path_candidates_loop_subset:
  "compute_path_candidates_loop idxL d pcs cand = Inr c \<Longrightarrow> bit c j \<Longrightarrow> bit cand j"
proof (induction pcs arbitrary: cand)
  case Nil
  then show ?case by simp
next
  case (Cons p pcs)
  obtain pos cell where p: "p = (pos, cell)" by (cases p)
  from Cons.prems(1) obtain allowed where al: "getitem d cell = Inr allowed"
    by (auto simp: p split: sum.splits)
  show ?case
  proof (cases "allowed = 0")
    case True
    with Cons.prems al show ?thesis by (simp add: p)
  next
    case False
    with Cons.prems(1) al obtain ip a where
      ip: "getitem idxL (int pos) = Inr ip" and a: "allowed_words_for_pos ip allowed = Inr a"
      by (auto simp: p split: sum.splits)
    show ?thesis
    proof (cases "cand AND a = 0")
      case True
      with Cons.prems al False ip a show ?thesis by (simp add: p)
    next
      case nz: False
      with Cons.prems(1) al False ip a have
        "compute_path_candidates_loop idxL d pcs (cand AND a) = Inr c" by (simp add: p)
      from Cons.IH [OF this Cons.prems(2)] show ?thesis by (simp add: bit_and_iff)
    qed
  qed
qed

lemma compute_path_candidates_subset:
  assumes "compute_path_candidates cells L d index all_mask = Inr c" and "bit c j"
  shows "\<exists>m. all_mask L = Some m \<and> bit m j"
proof -
  from assms obtain idxL where i: "index L = Some idxL"
    by (cases "index L") (auto simp: compute_path_candidates_def)
  with assms obtain m where m: "all_mask L = Some m"
    by (cases "all_mask L") (auto simp: compute_path_candidates_def)
  with assms i have "compute_path_candidates_loop idxL d (enumerate 0 cells) m = Inr c"
    by (simp add: compute_path_candidates_def)
  from compute_path_candidates_loop_subset [OF this assms(2)] m show ?thesis by simp
qed



text \<open>
  A dictionary file with the lines \<^verbatim>\<open>AB\<close>, \<^verbatim>\<open>AB\<close>, \<^verbatim>\<open>CDE\<close>, \<^verbatim>\<open>FGH\<close>, and the paths
  \<^verbatim>\<open>(0,0),(0,1)\<close> and \<^verbatim>\<open>(0,2),(0,3),(0,4)\<close> of a grid of one row.
\<close>

definition dup_dict :: wordsdict where
  "dup_dict = [(2, [[65, 66], [65, 66]]), (3, [[67, 68, 69], [70, 71, 72]])]"

definition dup_paths :: "path list" where
  "dup_paths = [([0, 1], 2), ([2, 3, 4], 3)]"

lemma dup_root:
  "propagate (replicate 5 ALL_letters) (initial_cands (all_mask_of dup_dict) dup_paths) dup_paths
     (index_of dup_dict) (all_mask_of dup_dict) 5 = Inr (True, [1, 2, 36, 72, 144], [3, 3])"
  by (simp add: dup_dict_def dup_paths_def initial_cands_def run_simps)

lemma dup_child:
  "branch_child [1, 2, 36, 72, 144] [3, 3] 0 [0, 1] [[65, 66], [65, 66]] 0
     = Inr (Some ([1, 2, 36, 72, 144], [1, 3]))"
  by (simp add: branch_child_def run_simps)

lemma dup_pass:
  "propagate_pass [1, 2, 36, 72, 144] [1, 3] dup_paths (index_of dup_dict) (all_mask_of dup_dict) 5
     = Inr (True, [1, 2, 36, 72, 144], [3, 3], True)"
  by (simp add: dup_dict_def dup_paths_def run_simps)

lemma dup_node:
  "solve_node [1, 2, 36, 72, 144] [1, 3] dup_paths (index_of dup_dict) (all_mask_of dup_dict) 5
     dup_dict = Inr (Branch [1, 2, 36, 72, 144] [3, 3] 0 [0, 1] [[65, 66], [65, 66]] [0, 1])"
  by (simp add: solve_node_def choose_branch_path_def dict_get_def dup_dict_def dup_paths_def
      run_simps)

lemma dup_root_node:
  "solve_node (replicate 5 ALL_letters) (initial_cands (all_mask_of dup_dict) dup_paths) dup_paths
     (index_of dup_dict) (all_mask_of dup_dict) 5 dup_dict
   = Inr (Branch [1, 2, 36, 72, 144] [3, 3] 0 [0, 1] [[65, 66], [65, 66]] [0, 1])"
  by (simp add: solve_node_def choose_branch_path_def dict_get_def dup_dict_def dup_paths_def
      initial_cands_def run_simps)

lemma dup_child_loops:
  "solve depth [1, 2, 36, 72, 144] [1, 3] dup_paths (index_of dup_dict) (all_mask_of dup_dict) 5
     dup_dict = Inl RecursionError"
proof (induction depth)
  case 0
  show ?case by simp
next
  case (Suc depth)
  show ?case
    by (simp only: solve.simps branches.simps dup_node dup_child Suc.IH sum.case node.case
        option.case prod.case)
qed

lemma dup_root_loops:
  "solve depth (replicate 5 ALL_letters) (initial_cands (all_mask_of dup_dict) dup_paths) dup_paths
     (index_of dup_dict) (all_mask_of dup_dict) 5 dup_dict = Inl RecursionError"
proof (cases depth)
  case 0
  then show ?thesis by simp
next
  case (Suc k)
  show ?thesis
    unfolding Suc
    by (simp only: solve.simps branches.simps dup_root_node dup_child dup_child_loops sum.case
        node.case option.case prod.case)
qed

lemma dup_loaded:
  "load_dictionary latin1_strip latin1_isalpha latin1_upper 3
     [[65, 66], [65, 66], [67, 68, 69], [70, 71, 72]] = dup_dict"
  by (simp add: latin1_simps Let_def dup_dict_def)

lemma dup_paths_loaded:
  "load_paths [[(0, 0), (0, 1)], [(0, 2), (0, 3), (0, 4)]]
     = ([([(0, 0), (0, 1)], 2), ([(0, 2), (0, 3), (0, 4)], 3)], 1, 5, 3)"
  by (simp add: load_paths_def)

lemma dup_builds: "build_index dup_dict = Inr (index_of dup_dict, all_mask_of dup_dict)"
proof -
  have "\<exists>r. build_index dup_dict = Inr r" by (simp add: dup_dict_def run_simps)
  then show ?thesis using build_index_of by auto
qed

lemma dup_main:
  "main latin1_strip latin1_isalpha latin1_upper depth
     [[(0, 0), (0, 1)], [(0, 2), (0, 3), (0, 4)]]
     [[65, 66], [65, 66], [67, 68, 69], [70, 71, 72]] = Inl RecursionError"
proof -
  have p: "linear_paths [([(0, 0), (0, 1)], 2), ([(0, 2), (0, 3), (0, 4)], 3)] 5 = dup_paths"
    by (simp add: linear_paths_def dup_paths_def)
  have n: "nat (1 * 5) = 5" by simp
  show ?thesis
    unfolding main_def dup_paths_loaded prod.case dup_loaded Let_def dup_builds sum.case p n
      dup_root_loops ..
qed

text \<open>
  Claim C3 (monotonic shrink) fails on the code for the path candidate sets:
  \<^verbatim>\<open>compute_path_candidates\<close> starts from \<^verbatim>\<open>all_mask[L]\<close>, not from the path's previous
  candidate set, and \<^verbatim>\<open>propagate\<close> overwrites the previous set with the result. For the
  dictionary and paths above, \<^verbatim>\<open>propagate\<close> at the root of the search leaves the domains
  \<^verbatim>\<open>{A}, {B}, {C,F}, {D,G}, {E,H}\<close> and the candidate sets \<^verbatim>\<open>{0,1}, {0,1}\<close>;
  \<^verbatim>\<open>solve\<close> forces path 0 to word 0, so its candidate set is \<^verbatim>\<open>{0}\<close>; and the next pass
  of \<^verbatim>\<open>propagate\<close> makes it \<^verbatim>\<open>{0,1}\<close> again: bit 1 is gained. The child is then in the
  state of its parent and forces word 0 again: whatever depth of recursion Python allows, the
  program ends in \<^verbatim>\<open>RecursionError\<close>, although the boards \<^verbatim>\<open>A B C D E\<close> and
  \<^verbatim>\<open>A B F G H\<close> solve the input.
\<close>

theorem propagate_pass_gains_bit:
  "propagate (replicate 5 ALL_letters) (initial_cands (all_mask_of dup_dict) dup_paths) dup_paths
     (index_of dup_dict) (all_mask_of dup_dict) 5 = Inr (True, [1, 2, 36, 72, 144], [3, 3]) \<and>
   branch_child [1, 2, 36, 72, 144] [3, 3] 0 [0, 1] [[65, 66], [65, 66]] 0
     = Inr (Some ([1, 2, 36, 72, 144], [1, 3])) \<and>
   propagate_pass [1, 2, 36, 72, 144] [1, 3] dup_paths (index_of dup_dict) (all_mask_of dup_dict) 5
     = Inr (True, [1, 2, 36, 72, 144], [3, 3], True) \<and>
   main latin1_strip latin1_isalpha latin1_upper depth
     [[(0, 0), (0, 1)], [(0, 2), (0, 3), (0, 4)]]
     [[65, 66], [65, 66], [67, 68, 69], [70, 71, 72]] = Inl RecursionError"
  using dup_root dup_child dup_pass dup_main by blast

text \<open>A dictionary file with the lines \<^verbatim>\<open>AB\<close> and \<^verbatim>\<open>CD\<close>.\<close>

definition ab_cd :: wordsdict where
  "ab_cd = [(2, [[65, 66], [67, 68]])]"

section \<open>Branching order\<close>

lemma bits_rec: "{k. bit (x::nat) k} = (if odd x then {0} else {}) \<union> Suc ` {k. bit (x div 2) k}"
proof (rule set_eqI)
  fix k
  show "k \<in> {k. bit x k} \<longleftrightarrow> k \<in> (if odd x then {0} else {}) \<union> Suc ` {k. bit (x div 2) k}"
    by (cases k) (auto simp: bit_0 bit_Suc)
qed

lemma finite_bits_nat: "finite {k. bit (x::nat) k}"
proof (induction x rule: less_induct)
  case (less x)
  show ?case
  proof (cases "x = 0")
    case True
    then show ?thesis by simp
  next
    case False
    then have "x div 2 < x" by simp
    from less.IH [OF this] show ?thesis by (subst bits_rec) simp
  qed
qed

lemma bitcount_card: "bitcount x = card {k. bit x k}"
proof (induction x rule: less_induct)
  case (less x)
  show ?case
  proof (cases "x = 0")
    case True
    then show ?thesis by (simp add: bitcount.simps [of 0])
  next
    case False
    then have lt: "x div 2 < x" by simp
    have fin: "finite (Suc ` {k. bit (x div 2) k})" by (simp add: finite_bits_nat)
    have c: "card (Suc ` {k. bit (x div 2) k}) = bitcount (x div 2)"
      using less.IH [OF lt] by (simp add: card_image)
    have "card {k. bit x k} = x mod 2 + bitcount (x div 2)"
    proof (cases "odd x")
      case True
      then have "{k. bit x k} = insert 0 (Suc ` {k. bit (x div 2) k})"
        by (subst bits_rec) simp
      moreover have "0 \<notin> Suc ` {k. bit (x div 2) k}" by auto
      ultimately have "card {k. bit x k} = Suc (bitcount (x div 2))"
        using fin c by simp
      moreover have "x mod 2 = 1" using True by (simp add: odd_iff_mod_2_eq_one)
      ultimately show ?thesis by simp
    next
      case ev: False
      then have "{k. bit x k} = Suc ` {k. bit (x div 2) k}"
        by (subst bits_rec) simp
      then show ?thesis using c ev by simp
    qed
    then show ?thesis using False by (simp add: bitcount.simps [of x])
  qed
qed

lemma choose_branch_path_loop_spec:
  "choose_branch_path_loop (enumerate k cs) best bc = r \<Longrightarrow>
     (r = best \<and> (\<forall>j<length cs. \<not> (1 < bitcount (cs ! j) \<and> bitcount (cs ! j) < bc))) \<or>
     (\<exists>j<length cs. r = Some (k + j) \<and> 1 < bitcount (cs ! j) \<and> bitcount (cs ! j) < bc \<and>
        (\<forall>i<length cs. 1 < bitcount (cs ! i) \<longrightarrow> bitcount (cs ! j) \<le> bitcount (cs ! i)) \<and>
        (\<forall>i<j. 1 < bitcount (cs ! i) \<longrightarrow> bitcount (cs ! j) < bitcount (cs ! i)))"
proof (induction cs arbitrary: k best bc)
  case Nil
  then show ?case by simp
next
  case (Cons c cs)
  let ?cnt = "bitcount c"
  show ?case
  proof (cases "1 < ?cnt \<and> ?cnt < bc")
    case True
    with Cons.prems have
      "choose_branch_path_loop (enumerate (Suc k) cs) (Some k) ?cnt = r" by (simp add: Let_def)
    from Cons.IH [OF this] show ?thesis
    proof
      assume a: "r = Some k \<and> (\<forall>j<length cs. \<not> (1 < bitcount (cs ! j) \<and> bitcount (cs ! j) < ?cnt))"
      have "0 < length (c # cs) \<and> r = Some (k + 0) \<and> 1 < bitcount ((c # cs) ! 0) \<and>
            bitcount ((c # cs) ! 0) < bc \<and>
            (\<forall>i<length (c # cs). 1 < bitcount ((c # cs) ! i) \<longrightarrow>
               bitcount ((c # cs) ! 0) \<le> bitcount ((c # cs) ! i)) \<and>
            (\<forall>i<0. 1 < bitcount ((c # cs) ! i) \<longrightarrow> bitcount ((c # cs) ! 0) < bitcount ((c # cs) ! i))"
        using a True by (auto simp: less_Suc_eq_0_disj not_less)
      then show ?thesis by blast
    next
      assume "\<exists>j<length cs. r = Some (Suc k + j) \<and> 1 < bitcount (cs ! j) \<and> bitcount (cs ! j) < ?cnt \<and>
        (\<forall>i<length cs. 1 < bitcount (cs ! i) \<longrightarrow> bitcount (cs ! j) \<le> bitcount (cs ! i)) \<and>
        (\<forall>i<j. 1 < bitcount (cs ! i) \<longrightarrow> bitcount (cs ! j) < bitcount (cs ! i))"
      then obtain j where j: "j < length cs" "r = Some (Suc k + j)" "1 < bitcount (cs ! j)"
        "bitcount (cs ! j) < ?cnt"
        "\<forall>i<length cs. 1 < bitcount (cs ! i) \<longrightarrow> bitcount (cs ! j) \<le> bitcount (cs ! i)"
        "\<forall>i<j. 1 < bitcount (cs ! i) \<longrightarrow> bitcount (cs ! j) < bitcount (cs ! i)" by blast
      have "Suc j < length (c # cs) \<and> r = Some (k + Suc j) \<and> 1 < bitcount ((c # cs) ! Suc j) \<and>
            bitcount ((c # cs) ! Suc j) < bc \<and>
            (\<forall>i<length (c # cs). 1 < bitcount ((c # cs) ! i) \<longrightarrow>
               bitcount ((c # cs) ! Suc j) \<le> bitcount ((c # cs) ! i)) \<and>
            (\<forall>i<Suc j. 1 < bitcount ((c # cs) ! i) \<longrightarrow>
               bitcount ((c # cs) ! Suc j) < bitcount ((c # cs) ! i))"
        using j True by (auto simp: less_Suc_eq_0_disj)
      then show ?thesis by blast
    qed
  next
    case False
    with Cons.prems have
      "choose_branch_path_loop (enumerate (Suc k) cs) best bc = r"
      by (auto simp: Let_def split: if_splits)
    from Cons.IH [OF this] show ?thesis
    proof
      assume "r = best \<and> (\<forall>j<length cs. \<not> (1 < bitcount (cs ! j) \<and> bitcount (cs ! j) < bc))"
      then have "r = best \<and>
        (\<forall>j<length (c # cs). \<not> (1 < bitcount ((c # cs) ! j) \<and> bitcount ((c # cs) ! j) < bc))"
        using False by (auto simp: less_Suc_eq_0_disj)
      then show ?thesis by blast
    next
      assume "\<exists>j<length cs. r = Some (Suc k + j) \<and> 1 < bitcount (cs ! j) \<and> bitcount (cs ! j) < bc \<and>
        (\<forall>i<length cs. 1 < bitcount (cs ! i) \<longrightarrow> bitcount (cs ! j) \<le> bitcount (cs ! i)) \<and>
        (\<forall>i<j. 1 < bitcount (cs ! i) \<longrightarrow> bitcount (cs ! j) < bitcount (cs ! i))"
      then obtain j where j: "j < length cs" "r = Some (Suc k + j)" "1 < bitcount (cs ! j)"
        "bitcount (cs ! j) < bc"
        "\<forall>i<length cs. 1 < bitcount (cs ! i) \<longrightarrow> bitcount (cs ! j) \<le> bitcount (cs ! i)"
        "\<forall>i<j. 1 < bitcount (cs ! i) \<longrightarrow> bitcount (cs ! j) < bitcount (cs ! i)" by blast
      have "Suc j < length (c # cs) \<and> r = Some (k + Suc j) \<and> 1 < bitcount ((c # cs) ! Suc j) \<and>
            bitcount ((c # cs) ! Suc j) < bc \<and>
            (\<forall>i<length (c # cs). 1 < bitcount ((c # cs) ! i) \<longrightarrow>
               bitcount ((c # cs) ! Suc j) \<le> bitcount ((c # cs) ! i)) \<and>
            (\<forall>i<Suc j. 1 < bitcount ((c # cs) ! i) \<longrightarrow>
               bitcount ((c # cs) ! Suc j) < bitcount ((c # cs) ! i))"
        using j False by (auto simp: less_Suc_eq_0_disj)
      then show ?thesis by blast
    qed
  qed
qed

lemma choose_branch_path_Some:
  assumes "choose_branch_path pcs = Some pid"
  shows "pid < length pcs \<and> 1 < bitcount (pcs ! pid) \<and> bitcount (pcs ! pid) < 10 ^ 9 \<and>
         (\<forall>i<length pcs. 1 < bitcount (pcs ! i) \<longrightarrow> bitcount (pcs ! pid) \<le> bitcount (pcs ! i)) \<and>
         (\<forall>i<pid. 1 < bitcount (pcs ! i) \<longrightarrow> bitcount (pcs ! pid) < bitcount (pcs ! i))"
  using choose_branch_path_loop_spec [OF assms [unfolded choose_branch_path_def]] by auto

lemma choose_branch_path_None:
  assumes "choose_branch_path pcs = None"
  shows "\<forall>j<length pcs. \<not> (1 < bitcount (pcs ! j) \<and> bitcount (pcs ! j) < 10 ^ 9)"
  using choose_branch_path_loop_spec [OF assms [unfolded choose_branch_path_def]] by auto

lemma lowbit_nonzero: "x \<noteq> 0 \<Longrightarrow> lowbit x \<noteq> 0"
  using lowbit_pow [of x] by auto

lemma bit_length_pow: "bit_length (2 ^ k) = Suc k"
proof (induction k)
  case 0
  show ?case by (simp add: bit_length.simps [of "Suc 0"] bit_length.simps [of 0])
next
  case (Suc k)
  then show ?case by (simp add: bit_length.simps [of "2 * 2 ^ k"])
qed

lemma bit_xor_pow: "bit (x::nat) k \<Longrightarrow> bit (x XOR 2 ^ k) j \<longleftrightarrow> bit x j \<and> j \<noteq> k"
  by (auto simp: bit_xor_iff bit_exp_iff)

lemma iter_bits_props:
  "set (iter_bits x) = {k. bit x k} \<and> sorted_wrt (<) (iter_bits x)"
proof (induction x rule: less_induct)
  case (less x)
  show ?case
  proof (cases "x = 0")
    case True
    then show ?thesis by (simp add: iter_bits.simps [of 0])
  next
    case False
    then obtain k where k: "lowbit x = 2 ^ k" "bit x k" "\<forall>j<k. \<not> bit x j"
      using lowbit_pow [of x] by auto
    let ?y = "x XOR 2 ^ k"
    have lt: "?y < x" using k(2) by (rule xor_pow_less)
    have unf: "iter_bits x = k # iter_bits ?y"
      using False k(1) by (simp add: iter_bits.simps [of x] bit_length_pow)
    have bxy: "\<And>j. bit ?y j \<longleftrightarrow> bit x j \<and> j \<noteq> k" using k(2) by (rule bit_xor_pow)
    from less.IH [OF lt] have ih: "set (iter_bits ?y) = {j. bit ?y j}" "sorted_wrt (<) (iter_bits ?y)"
      by auto
    have "set (iter_bits x) = {j. bit x j}" using unf ih(1) bxy k(2) by auto
    moreover have "\<forall>j \<in> set (iter_bits ?y). k < j"
    proof
      fix j assume "j \<in> set (iter_bits ?y)"
      then have "bit x j" "j \<noteq> k" using ih(1) bxy by auto
      then show "k < j" using k(3) by (metis linorder_neqE_nat)
    qed
    ultimately show ?thesis using unf ih(2) by simp
  qed
qed

lemma branches_first_success:
  "branches depth d pc paths index all_mask n wbl pid cells words wids = Inr (Some res) \<Longrightarrow>
     \<exists>pre wid post d2 pc2. wids = pre @ wid # post \<and>
        branch_child d pc pid cells words wid = Inr (Some (d2, pc2)) \<and>
        solve depth d2 pc2 paths index all_mask n wbl = Inr (Some res) \<and>
        (\<forall>w \<in> set pre. branch_child d pc pid cells words w = Inr None \<or>
           (\<exists>e2 pe2. branch_child d pc pid cells words w = Inr (Some (e2, pe2)) \<and>
              solve depth e2 pe2 paths index all_mask n wbl = Inr None))"
proof (induction wids)
  case Nil
  then show ?case by simp
next
  case (Cons wid wids)
  let ?P = "\<lambda>w. branch_child d pc pid cells words w = Inr None \<or>
           (\<exists>e2 pe2. branch_child d pc pid cells words w = Inr (Some (e2, pe2)) \<and>
              solve depth e2 pe2 paths index all_mask n wbl = Inr None)"
  show ?case
  proof (cases "?P wid")
    case True
    then have "branches depth d pc paths index all_mask n wbl pid cells words wids = Inr (Some res)"
      using Cons.prems by auto
    from Cons.IH [OF this] obtain pre w post d2 pc2 where
      h: "wids = pre @ w # post" "branch_child d pc pid cells words w = Inr (Some (d2, pc2))"
        "solve depth d2 pc2 paths index all_mask n wbl = Inr (Some res)" "\<forall>w \<in> set pre. ?P w"
      by blast
    have "wid # wids = (wid # pre) @ w # post" using h(1) by simp
    moreover have "\<forall>w \<in> set (wid # pre). ?P w" using h(4) True by simp
    ultimately show ?thesis using h(2,3) by blast
  next
    case False
    with Cons.prems obtain d2 pc2 where
      c: "branch_child d pc pid cells words wid = Inr (Some (d2, pc2))"
      by (auto split: sum.splits option.splits)
    with False Cons.prems have "solve depth d2 pc2 paths index all_mask n wbl = Inr (Some res)"
      by (auto split: sum.splits option.splits)
    with c have "wid # wids = [] @ wid # wids \<and>
        branch_child d pc pid cells words wid = Inr (Some (d2, pc2)) \<and>
        solve depth d2 pc2 paths index all_mask n wbl = Inr (Some res) \<and> (\<forall>w \<in> set []. ?P w)"
      by simp
    then show ?thesis by blast
  qed
qed


text \<open>
  \<open>branch_fails\<close>: the branch of word id \<open>w\<close> is skipped by \<^verbatim>\<open>continue\<close> or its recursive
  call returns \<^verbatim>\<open>None\<close>.
\<close>

definition branch_fails ::
  "nat \<Rightarrow> bitset list \<Rightarrow> bitset list \<Rightarrow> path list \<Rightarrow> (nat \<rightharpoonup> table) \<Rightarrow> (nat \<rightharpoonup> bitset) \<Rightarrow> nat
     \<Rightarrow> wordsdict \<Rightarrow> nat \<Rightarrow> int list \<Rightarrow> pystr list \<Rightarrow> nat \<Rightarrow> bool" where
  "branch_fails depth d pc paths index all_mask n wbl pid cells words w \<longleftrightarrow>
     branch_child d pc pid cells words w = Inr None \<or>
     (\<exists>d2 pc2. branch_child d pc pid cells words w = Inr (Some (d2, pc2)) \<and>
        solve depth d2 pc2 paths index all_mask n wbl = Inr None)"

lemma branches_failed_prefix:
  "\<forall>w \<in> set pre. branch_fails depth d pc paths index all_mask n wbl pid cells words w \<Longrightarrow>
     branches depth d pc paths index all_mask n wbl pid cells words (pre @ rest)
       = branches depth d pc paths index all_mask n wbl pid cells words rest"
  by (induction pre) (auto simp: branch_fails_def)

lemma branches_returns_first_success:
  assumes "\<forall>w \<in> set pre. branch_fails depth d pc paths index all_mask n wbl pid cells words w"
    and "branch_child d pc pid cells words wid = Inr (Some (d2, pc2))"
    and "solve depth d2 pc2 paths index all_mask n wbl = Inr (Some res)"
  shows "branches depth d pc paths index all_mask n wbl pid cells words (pre @ wid # post)
           = Inr (Some res)"
  unfolding branches_failed_prefix [OF assms(1)] using assms(2,3) by simp

lemma branches_all_fail:
  assumes "\<forall>w \<in> set wids. branch_fails depth d pc paths index all_mask n wbl pid cells words w"
  shows "branches depth d pc paths index all_mask n wbl pid cells words wids = Inr None"
  using branches_failed_prefix [OF assms, of "[]"] by simp

lemma branches_first_success':
  assumes "branches depth d pc paths index all_mask n wbl pid cells words wids = Inr (Some res)"
  shows "\<exists>pre wid post d2 pc2. wids = pre @ wid # post \<and>
        (\<forall>w \<in> set pre. branch_fails depth d pc paths index all_mask n wbl pid cells words w) \<and>
        branch_child d pc pid cells words wid = Inr (Some (d2, pc2)) \<and>
        solve depth d2 pc2 paths index all_mask n wbl = Inr (Some res)"
  using branches_first_success [OF assms] unfolding branch_fails_def by blast

lemma branches_none:
  "branches depth d pc paths index all_mask n wbl pid cells words wids = Inr None \<Longrightarrow>
     \<forall>w \<in> set wids. branch_fails depth d pc paths index all_mask n wbl pid cells words w"
proof (induction wids)
  case Nil
  then show ?case by simp
next
  case (Cons w wids)
  from Cons.prems have f: "branch_fails depth d pc paths index all_mask n wbl pid cells words w"
    unfolding branch_fails_def by (auto split: sum.splits option.splits)
  then have "branches depth d pc paths index all_mask n wbl pid cells words wids = Inr None"
    using Cons.prems unfolding branch_fails_def by auto
  from Cons.IH [OF this] f show ?case by simp
qed

text \<open>
  Claim C8 (deterministic branching order). Whenever \<^verbatim>\<open>solve\<close> reaches its \<^verbatim>\<open>for\<close> loop,
  the path it has chosen is the one \<^verbatim>\<open>choose_branch_path\<close> returns: its candidate set has
  more than one bit, no candidate set with more than one bit has fewer bits, and every earlier
  path with more than one bit has strictly more. The word ids tried are the bits of that
  candidate set in strictly increasing order, and \<^verbatim>\<open>solve\<close> returns what the loop returns.
  The loop returns a board exactly when some word id's branch succeeds after every word id
  before it has been skipped or has failed, and the board is the one that branch returns; it
  returns \<^verbatim>\<open>None\<close> exactly when every word id is skipped or fails.
\<close>

theorem solve_branching_order:
  assumes "solve_node domains path_cands paths index all_mask n_cells words_by_len
             = Inr (Branch d pc pid cells words wids)"
  shows "choose_branch_path pc = Some pid \<and> pid < length pc \<and>
         1 < card {k. bit (pc ! pid) k} \<and>
         (\<forall>i<length pc. 1 < card {k. bit (pc ! i) k} \<longrightarrow>
            card {k. bit (pc ! pid) k} \<le> card {k. bit (pc ! i) k}) \<and>
         (\<forall>i<pid. 1 < card {k. bit (pc ! i) k} \<longrightarrow>
            card {k. bit (pc ! pid) k} < card {k. bit (pc ! i) k}) \<and>
         wids = iter_bits (pc ! pid) \<and> sorted_wrt (<) wids \<and> set wids = {k. bit (pc ! pid) k} \<and>
         solve (Suc depth) domains path_cands paths index all_mask n_cells words_by_len
           = branches depth d pc paths index all_mask n_cells words_by_len pid cells words wids \<and>
         (\<forall>res. branches depth d pc paths index all_mask n_cells words_by_len pid cells words wids
                  = Inr (Some res) \<longleftrightarrow>
            (\<exists>pre wid post d2 pc2. wids = pre @ wid # post \<and>
               (\<forall>w \<in> set pre. branch_fails depth d pc paths index all_mask n_cells words_by_len
                                 pid cells words w) \<and>
               branch_child d pc pid cells words wid = Inr (Some (d2, pc2)) \<and>
               solve depth d2 pc2 paths index all_mask n_cells words_by_len = Inr (Some res))) \<and>
         (branches depth d pc paths index all_mask n_cells words_by_len pid cells words wids
            = Inr None \<longleftrightarrow>
          (\<forall>w \<in> set wids. branch_fails depth d pc paths index all_mask n_cells words_by_len
                              pid cells words w))"
proof -
  from assms have ch: "choose_branch_path pc = Some pid"
    unfolding solve_node_def
    by (auto split: sum.splits prod.splits if_splits option.splits)
  from choose_branch_path_Some [OF ch] have pid: "pid < length pc" and
    c: "1 < bitcount (pc ! pid)"
       "\<forall>i<length pc. 1 < bitcount (pc ! i) \<longrightarrow> bitcount (pc ! pid) \<le> bitcount (pc ! i)"
       "\<forall>i<pid. 1 < bitcount (pc ! i) \<longrightarrow> bitcount (pc ! pid) < bitcount (pc ! i)" by auto
  from assms ch pid have w: "wids = iter_bits (pc ! pid)"
    unfolding solve_node_def
    by (auto simp: getitem_nat split: sum.splits prod.splits if_splits option.splits)
  have s: "solve (Suc depth) domains path_cands paths index all_mask n_cells words_by_len
           = branches depth d pc paths index all_mask n_cells words_by_len pid cells words wids"
    using assms by simp
  have f: "branches depth d pc paths index all_mask n_cells words_by_len pid cells words wids
                  = Inr (Some res) \<longleftrightarrow>
            (\<exists>pre wid post d2 pc2. wids = pre @ wid # post \<and>
               (\<forall>w \<in> set pre. branch_fails depth d pc paths index all_mask n_cells words_by_len
                                 pid cells words w) \<and>
               branch_child d pc pid cells words wid = Inr (Some (d2, pc2)) \<and>
               solve depth d2 pc2 paths index all_mask n_cells words_by_len = Inr (Some res))" for res
    using branches_first_success' [of depth d pc paths index all_mask n_cells words_by_len
            pid cells words wids res]
      branches_returns_first_success [of _ depth d pc paths index all_mask n_cells words_by_len
            pid cells words _ _ _ res]
    by blast
  have n: "branches depth d pc paths index all_mask n_cells words_by_len pid cells words wids
            = Inr None \<longleftrightarrow>
          (\<forall>w \<in> set wids. branch_fails depth d pc paths index all_mask n_cells words_by_len
                              pid cells words w)"
  proof
    assume "branches depth d pc paths index all_mask n_cells words_by_len pid cells words wids
            = Inr None"
    then show "\<forall>w \<in> set wids. branch_fails depth d pc paths index all_mask n_cells words_by_len
                              pid cells words w" by (rule branches_none)
  next
    assume "\<forall>w \<in> set wids. branch_fails depth d pc paths index all_mask n_cells words_by_len
                              pid cells words w"
    then show "branches depth d pc paths index all_mask n_cells words_by_len pid cells words wids
            = Inr None" by (rule branches_all_fail)
  qed
  show ?thesis
    using ch pid c [unfolded bitcount_card] w iter_bits_props [of "pc ! pid"] s f n
    by blast
qed


lemma node_ab_cd:
  "solve_node [67108863, 67108863] [3] [([0, 1], 2)] (index_of ab_cd) (all_mask_of ab_cd) 2 ab_cd
     = Inr (Branch [5, 10] [3] 0 [0, 1] [[65, 66], [67, 68]] [0, 1])"
  by (simp add: ab_cd_def solve_node_def choose_branch_path_def dict_get_def run_simps)

lemma child_ab_cd:
  "branch_child [5, 10] [3] 0 [0, 1] [[65, 66], [67, 68]] 0 = Inr (Some ([1, 2], [1]))"
  by (simp add: branch_child_def run_simps)

lemma solve_child_ab_cd:
  "solve 1 [1, 2] [1] [([0, 1], 2)] (index_of ab_cd) (all_mask_of ab_cd) 2 ab_cd
     = Inr (Some [1, 2])"
  by (simp add: ab_cd_def solve_node_def run_simps)

theorem solve_branching_order_witness:
  "solve_node [67108863, 67108863] [3] [([0, 1], 2)] (index_of ab_cd) (all_mask_of ab_cd) 2 ab_cd
     = Inr (Branch [5, 10] [3] 0 [0, 1] [[65, 66], [67, 68]] [0, 1]) \<and>
   choose_branch_path [3] = Some 0 \<and> iter_bits 3 = [0, 1] \<and>
   branch_child [5, 10] [3] 0 [0, 1] [[65, 66], [67, 68]] 0 = Inr (Some ([1, 2], [1])) \<and>
   solve 1 [1, 2] [1] [([0, 1], 2)] (index_of ab_cd) (all_mask_of ab_cd) 2 ab_cd
     = Inr (Some [1, 2]) \<and>
   solve (Suc 1) [67108863, 67108863] [3] [([0, 1], 2)] (index_of ab_cd) (all_mask_of ab_cd) 2 ab_cd
     = Inr (Some [1, 2])"
proof -
  note t = solve_branching_order [OF node_ab_cd, of 1]
  from t have c: "choose_branch_path [3] = Some 0" by blast
  from t have i: "[0, 1] = iter_bits ([3] ! 0)" by blast
  have i': "iter_bits 3 = [0, 1]" using i by simp
  from t have s: "solve (Suc 1) [67108863, 67108863] [3] [([0, 1], 2)] (index_of ab_cd) (all_mask_of ab_cd) 2 ab_cd
      = branches 1 [5, 10] [3] [([0, 1], 2)] (index_of ab_cd) (all_mask_of ab_cd) 2 ab_cd
         0 [0, 1] [[65, 66], [67, 68]] [0, 1]"
    by blast
  from t have e: "branches 1 [5, 10] [3] [([0, 1], 2)] (index_of ab_cd) (all_mask_of ab_cd) 2 ab_cd
         0 [0, 1] [[65, 66], [67, 68]] [0, 1] = Inr (Some [1, 2]) \<longleftrightarrow>
       (\<exists>pre wid post d2 pc2. [0, 1] = pre @ wid # post \<and>
               (\<forall>w \<in> set pre. branch_fails 1 [5, 10] [3] [([0, 1], 2)] (index_of ab_cd)
                   (all_mask_of ab_cd) 2 ab_cd 0 [0, 1] [[65, 66], [67, 68]] w) \<and>
               branch_child [5, 10] [3] 0 [0, 1] [[65, 66], [67, 68]] wid = Inr (Some (d2, pc2)) \<and>
               solve 1 d2 pc2 [([0, 1], 2)] (index_of ab_cd) (all_mask_of ab_cd) 2 ab_cd
                 = Inr (Some [1, 2]))" by blast
  have "[0, 1::nat] = [] @ 0 # [1] \<and>
               (\<forall>w \<in> set []. branch_fails 1 [5, 10] [3] [([0, 1], 2)] (index_of ab_cd)
                   (all_mask_of ab_cd) 2 ab_cd 0 [0, 1] [[65, 66], [67, 68]] w) \<and>
               branch_child [5, 10] [3] 0 [0, 1] [[65, 66], [67, 68]] 0 = Inr (Some ([1, 2], [1])) \<and>
               solve 1 [1, 2] [1] [([0, 1], 2)] (index_of ab_cd) (all_mask_of ab_cd) 2 ab_cd
                 = Inr (Some [1, 2])"
    using child_ab_cd solve_child_ab_cd by simp
  then have "branches 1 [5, 10] [3] [([0, 1], 2)] (index_of ab_cd) (all_mask_of ab_cd) 2 ab_cd
         0 [0, 1] [[65, 66], [67, 68]] [0, 1] = Inr (Some [1, 2])"
    unfolding e by blast
  with s have "solve (Suc 1) [67108863, 67108863] [3] [([0, 1], 2)] (index_of ab_cd)
      (all_mask_of ab_cd) 2 ab_cd = Inr (Some [1, 2])" by (simp only:)
  with c i' node_ab_cd child_ab_cd solve_child_ab_cd show ?thesis by blast
qed

section \<open>The dictionary and the word index\<close>









lemma letter_bits_loop_spec:
  "letter_bits_loop pos (enumerate k ws) lb = Inr lb' \<Longrightarrow> length lb = 26 \<Longrightarrow>
     length lb' = 26 \<and> (\<forall>w \<in> set ws. pos < length w) \<and>
     (\<forall>letter<26. \<forall>wid. bit (lb' ! letter) wid \<longleftrightarrow>
        bit (lb ! letter) wid \<or>
        (k \<le> wid \<and> wid - k < length ws \<and> (ws ! (wid - k)) ! pos = 65 + letter))"
proof (induction ws arbitrary: k lb)
  case Nil
  then show ?case by simp
next
  case (Cons w ws)
  from Cons.prems(1) have pl: "pos < length w"
    by (auto simp: getitem_nat split: sum.splits if_splits)
  define li where "li = int (w ! pos) - 65"
  define lb1 where "lb1 = (if 0 \<le> li \<and> li < 26
     then lb[nat li := (lb ! nat li) OR push_bit k 1] else lb)"
  have r: "letter_bits_loop pos (enumerate (Suc k) ws) lb1 = Inr lb'"
    using Cons.prems(1) pl by (auto simp: getitem_nat Let_def li_def lb1_def split: if_splits)
  have l1: "length lb1 = 26" using Cons.prems(2) by (simp add: lb1_def)
  from Cons.IH [OF r l1] have len: "length lb' = 26" and ws: "\<forall>w \<in> set ws. pos < length w" and
    ih: "\<And>letter wid. letter < 26 \<Longrightarrow> bit (lb' ! letter) wid \<longleftrightarrow>
        bit (lb1 ! letter) wid \<or>
        (Suc k \<le> wid \<and> wid - Suc k < length ws \<and> (ws ! (wid - Suc k)) ! pos = 65 + letter)"
    by auto
  have b1: "bit (lb1 ! letter) wid \<longleftrightarrow> bit (lb ! letter) wid \<or> (wid = k \<and> w ! pos = 65 + letter)"
    if "letter < 26" for letter wid
  proof (cases "0 \<le> li \<and> li < 26")
    case True
    then have nl: "nat li < length lb" using Cons.prems(2) by linarith
    show ?thesis
    proof (cases "letter = nat li")
      case True
      have "w ! pos = 65 + letter" using True \<open>0 \<le> li \<and> li < 26\<close> unfolding li_def by linarith
      then show ?thesis using True nl \<open>0 \<le> li \<and> li < 26\<close>
        by (auto simp: lb1_def bit_or_iff bit_exp_iff push_bit_eq_mult)
    next
      case False
      then have "w ! pos \<noteq> 65 + letter" using \<open>0 \<le> li \<and> li < 26\<close> unfolding li_def by linarith
      then show ?thesis using False by (simp add: lb1_def)
    qed
  next
    case False
    then have "w ! pos \<noteq> 65 + letter" using that unfolding li_def by linarith
    then show ?thesis using False by (auto simp: lb1_def)
  qed
  have "bit (lb' ! letter) wid \<longleftrightarrow>
        bit (lb ! letter) wid \<or>
        (k \<le> wid \<and> wid - k < length (w # ws) \<and> ((w # ws) ! (wid - k)) ! pos = 65 + letter)"
    if "letter < 26" for letter wid
  proof (cases "wid \<le> k")
    case True
    then show ?thesis using ih [OF that, of wid] b1 [OF that, of wid] by auto
  next
    case False
    then have "wid - k = Suc (wid - Suc k)" by simp
    then show ?thesis using ih [OF that, of wid] b1 [OF that, of wid] False by auto
  qed
  with len ws pl show ?case by auto
qed

lemma pos_tables_loop_spec:
  "pos_tables_loop words ps acc = Inr tabs \<Longrightarrow>
     length tabs = length acc + length ps \<and> (\<forall>i<length acc. tabs ! i = acc ! i) \<and>
     (\<forall>j<length ps. letter_bits_loop (ps ! j) (enumerate 0 words) (replicate 26 0)
         = Inr (tabs ! (length acc + j)))"
proof (induction ps arbitrary: acc)
  case Nil
  then show ?case by simp
next
  case (Cons p ps)
  from Cons.prems obtain lb where
    lb: "letter_bits_loop p (enumerate 0 words) (replicate 26 0) = Inr lb"
    by (auto split: sum.splits)
  with Cons.prems have "pos_tables_loop words ps (acc @ [lb]) = Inr tabs" by simp
  from Cons.IH [OF this] have len: "length tabs = length acc + length (p # ps)" and
    a: "\<And>i. i < Suc (length acc) \<Longrightarrow> tabs ! i = (acc @ [lb]) ! i" and
    b: "\<And>j. j < length ps \<Longrightarrow> letter_bits_loop (ps ! j) (enumerate 0 words) (replicate 26 0)
         = Inr (tabs ! (Suc (length acc) + j))" by auto
  have 1: "\<forall>i<length acc. tabs ! i = acc ! i"
    using a by (simp add: nth_append)
  have 2: "letter_bits_loop ((p # ps) ! j) (enumerate 0 words) (replicate 26 0)
         = Inr (tabs ! (length acc + j))" if "j < length (p # ps)" for j
  proof (cases j)
    case 0
    then show ?thesis using a [of "length acc"] lb by simp
  next
    case (Suc j')
    then show ?thesis using b [of j'] that by simp
  qed
  from len 1 2 show ?case by blast
qed

text \<open>What \<^verbatim>\<open>build_index\<close> has stored for the length \<open>L\<close>.\<close>

definition index_entry :: "pystr list \<Rightarrow> nat \<Rightarrow> table option \<Rightarrow> bitset option \<Rightarrow> bool" where
  "index_entry words L tabs_opt mask_opt \<longleftrightarrow>
     (if words = [] then tabs_opt = None \<and> mask_opt = None
      else (\<exists>tabs. tabs_opt = Some tabs \<and> mask_opt = Some (2 ^ length words - 1) \<and>
              pos_tables_loop words [0..<L] [] = Inr tabs))"

lemma build_index_loop_spec:
  "build_index_loop wbl index0 mask0 = Inr (index, all_mask) \<Longrightarrow> distinct (map fst wbl) \<Longrightarrow>
     (\<forall>L. if L \<in> fst ` set wbl \<and> dict_get wbl L \<noteq> []
          then index_entry (dict_get wbl L) L (index L) (all_mask L)
          else index L = index0 L \<and> all_mask L = mask0 L)"
proof (induction wbl arbitrary: index0 mask0)
  case Nil
  then show ?case by simp
next
  case (Cons e wbl)
  obtain K words where e: "e = (K, words)" by (cases e)
  from Cons.prems(2) have dk: "K \<notin> fst ` set wbl" and dr: "distinct (map fst wbl)"
    by (auto simp: e)
  have g: "dict_get (e # wbl) L = (if L = K then words else dict_get wbl L)" for L
    by (simp add: dict_get_def e)
  show ?case
  proof (cases "words = []")
    case True
    with Cons.prems(1) have "build_index_loop wbl index0 mask0 = Inr (index, all_mask)"
      by (simp add: e)
    from Cons.IH [OF this dr] have
      ih: "\<And>L. if L \<in> fst ` set wbl \<and> dict_get wbl L \<noteq> []
          then index_entry (dict_get wbl L) L (index L) (all_mask L)
          else index L = index0 L \<and> all_mask L = mask0 L" by blast
    show ?thesis
    proof (intro allI)
      fix L
      show "if L \<in> fst ` set (e # wbl) \<and> dict_get (e # wbl) L \<noteq> []
          then index_entry (dict_get (e # wbl) L) L (index L) (all_mask L)
          else index L = index0 L \<and> all_mask L = mask0 L"
      proof (cases "L = K")
        case eq: True
        have "dict_get (e # wbl) K = []" using True by (simp add: g)
        moreover have "index K = index0 K \<and> all_mask K = mask0 K" using ih [of K] dk by simp
        ultimately show ?thesis using eq by simp
      next
        case ne: False
        then have "dict_get (e # wbl) L = dict_get wbl L" by (simp add: g)
        moreover have "L \<in> fst ` set (e # wbl) \<longleftrightarrow> L \<in> fst ` set wbl" using ne by (simp add: e)
        ultimately show ?thesis using ih [of L] by simp
      qed
    qed
  next
    case False
    with Cons.prems(1) obtain tabs where
      t: "pos_tables_loop words [0..<K] [] = Inr tabs" and
      r: "build_index_loop wbl (index0(K \<mapsto> tabs)) (mask0(K \<mapsto> push_bit (length words) 1 - 1))
            = Inr (index, all_mask)"
      by (auto simp: e Let_def split: sum.splits)
    from Cons.IH [OF r dr] have
      ih: "\<And>L. if L \<in> fst ` set wbl \<and> dict_get wbl L \<noteq> []
          then index_entry (dict_get wbl L) L (index L) (all_mask L)
          else index L = (index0(K \<mapsto> tabs)) L \<and>
               all_mask L = (mask0(K \<mapsto> push_bit (length words) 1 - 1)) L" by blast
    show ?thesis
    proof (intro allI)
      fix L
      show "if L \<in> fst ` set (e # wbl) \<and> dict_get (e # wbl) L \<noteq> []
          then index_entry (dict_get (e # wbl) L) L (index L) (all_mask L)
          else index L = index0 L \<and> all_mask L = mask0 L"
      proof (cases "L = K")
        case True
        with ih [of K] dk have "index K = Some tabs"
          "all_mask K = Some (push_bit (length words) 1 - 1)" by auto
        moreover have "dict_get (e # wbl) K = words" by (simp add: g)
        ultimately show ?thesis using True False t
          by (simp add: e index_entry_def push_bit_eq_mult)
      next
        case ne: False
        then have "dict_get (e # wbl) L = dict_get wbl L" by (simp add: g)
        moreover have "L \<in> fst ` set (e # wbl) \<longleftrightarrow> L \<in> fst ` set wbl" using ne by (simp add: e)
        moreover have "(index0(K \<mapsto> tabs)) L = index0 L"
          "(mask0(K \<mapsto> push_bit (length words) 1 - 1)) L = mask0 L" using ne by simp_all
        ultimately show ?thesis using ih [of L] by simp
      qed
    qed
  qed
qed

lemma build_index_entry:
  assumes "build_index wbl = Inr (index, all_mask)" and "distinct (map fst wbl)"
  shows "index_entry (dict_get wbl L) L (index L) (all_mask L)"
proof -
  from build_index_loop_spec [OF assms(1) [unfolded build_index_def] assms(2)]
  have h: "if L \<in> fst ` set wbl \<and> dict_get wbl L \<noteq> []
          then index_entry (dict_get wbl L) L (index L) (all_mask L)
          else index L = None \<and> all_mask L = None" by auto
  show ?thesis
  proof (cases "L \<in> fst ` set wbl \<and> dict_get wbl L \<noteq> []")
    case True
    with h show ?thesis by simp
  next
    case False
    have "dict_get wbl L = []"
    proof (cases "L \<in> fst ` set wbl")
      case True
      with False show ?thesis by simp
    next
      case nin: False
      then have "map_of wbl L = None" by (simp add: map_of_eq_None_iff)
      then show ?thesis by (simp add: dict_get_def)
    qed
    with h False show ?thesis by (auto simp: index_entry_def)
  qed
qed

lemma index_entry_bits:
  assumes "index_entry words L (Some tabs) mo" and "pos < L"
  shows "length tabs = L" and "length (tabs ! pos) = 26" and "\<forall>w \<in> set words. pos < length w"
    and "letter < 26 \<Longrightarrow> bit (tabs ! pos ! letter) wid \<longleftrightarrow>
           wid < length words \<and> (words ! wid) ! pos = 65 + letter"
proof -
  from assms(1) have t: "pos_tables_loop words [0..<L] [] = Inr tabs"
    by (auto simp: index_entry_def split: if_splits)
  from pos_tables_loop_spec [OF t] have len: "length tabs = L" and
    lb: "letter_bits_loop pos (enumerate 0 words) (replicate 26 0) = Inr (tabs ! pos)"
    using assms(2) by auto
  from letter_bits_loop_spec [OF lb] have
    a: "length (tabs ! pos) = 26" "\<forall>w \<in> set words. pos < length w" and
    b: "\<And>letter wid. letter < 26 \<Longrightarrow> bit (tabs ! pos ! letter) wid \<longleftrightarrow>
        bit (replicate 26 (0::nat) ! letter) wid \<or>
        (wid < length words \<and> (words ! wid) ! pos = 65 + letter)" by auto
  show "length tabs = L" by (rule len)
  show "length (tabs ! pos) = 26" by (rule a(1))
  show "\<forall>w \<in> set words. pos < length w" by (rule a(2))
  show "bit (tabs ! pos ! letter) wid \<longleftrightarrow>
           wid < length words \<and> (words ! wid) ! pos = 65 + letter" if "letter < 26"
    using b [OF that, of wid] that by simp
qed

lemma index_entry_length:
  assumes "index_entry words L (Some tabs) mo"
  shows "length tabs = L"
proof -
  from assms have t: "pos_tables_loop words [0..<L] [] = Inr tabs"
    by (auto simp: index_entry_def split: if_splits)
  from pos_tables_loop_spec [OF t] show ?thesis by simp
qed


section \<open>Candidate sets\<close>

lemma allowed_words_for_pos_loop_unfold:
  assumes "m \<noteq> 0"
  shows "\<exists>k. bit m k \<and> (\<forall>j<k. \<not> bit m j) \<and> m XOR 2 ^ k < m \<and>
           allowed_words_for_pos_loop ip m out =
             (case getitem ip (int k) of Inl e \<Rightarrow> Inl e
              | Inr b \<Rightarrow> allowed_words_for_pos_loop ip (m XOR 2 ^ k) (out OR b))"
proof -
  from assms obtain k where k: "lowbit m = 2 ^ k" "bit m k" "\<forall>j<k. \<not> bit m j"
    using lowbit_pow [of m] by auto
  have "allowed_words_for_pos_loop ip m out =
             (case getitem ip (int k) of Inl e \<Rightarrow> Inl e
              | Inr b \<Rightarrow> allowed_words_for_pos_loop ip (m XOR 2 ^ k) (out OR b))"
    using assms k(1) by (simp add: allowed_words_for_pos_loop.simps [of ip m out] bit_length_pow)
  with k xor_pow_less [OF k(2)] show ?thesis by blast
qed

lemma allowed_words_for_pos_loop_result:
  "allowed_words_for_pos_loop ip m out = Inr r \<Longrightarrow>
     (\<forall>l. bit m l \<longrightarrow> l < length ip) \<and>
     (\<forall>w. bit r w \<longleftrightarrow> bit out w \<or> (\<exists>l. bit m l \<and> bit (ip ! l) w))"
proof (induction m arbitrary: out rule: less_induct)
  case (less m)
  show ?case
  proof (cases "m = 0")
    case True
    with less.prems show ?thesis by (simp add: allowed_words_for_pos_loop.simps [of ip 0 out])
  next
    case False
    from allowed_words_for_pos_loop_unfold [OF False, of ip out] obtain k where
      k: "bit m k" "m XOR 2 ^ k < m" and
      u: "allowed_words_for_pos_loop ip m out =
             (case getitem ip (int k) of Inl e \<Rightarrow> Inl e
              | Inr b \<Rightarrow> allowed_words_for_pos_loop ip (m XOR 2 ^ k) (out OR b))" by blast
    from less.prems u have kl: "k < length ip"
      by (auto simp: getitem_nat split: if_splits)
    with less.prems u have
      r: "allowed_words_for_pos_loop ip (m XOR 2 ^ k) (out OR ip ! k) = Inr r"
      by (simp add: getitem_nat)
    from less.IH [OF k(2) r] have
      a: "\<And>l. bit (m XOR 2 ^ k) l \<Longrightarrow> l < length ip" and
      b: "\<And>w. bit r w \<longleftrightarrow> bit (out OR ip ! k) w \<or> (\<exists>l. bit (m XOR 2 ^ k) l \<and> bit (ip ! l) w)"
      by auto
    have x: "\<And>j. bit (m XOR 2 ^ k) j \<longleftrightarrow> bit m j \<and> j \<noteq> k" using k(1) by (rule bit_xor_pow)
    have 1: "\<forall>l. bit m l \<longrightarrow> l < length ip"
      using a x kl by metis
    have 2: "bit r w \<longleftrightarrow> bit out w \<or> (\<exists>l. bit m l \<and> bit (ip ! l) w)" for w
      unfolding b x bit_or_iff using k(1) by auto
    from 1 2 show ?thesis by blast
  qed
qed

lemma allowed_words_for_pos_loop_total:
  "(\<forall>l. bit m l \<longrightarrow> l < length ip) \<Longrightarrow> \<exists>r. allowed_words_for_pos_loop ip m out = Inr r"
proof (induction m arbitrary: out rule: less_induct)
  case (less m)
  show ?case
  proof (cases "m = 0")
    case True
    then show ?thesis by (simp add: allowed_words_for_pos_loop.simps [of ip 0 out])
  next
    case False
    from allowed_words_for_pos_loop_unfold [OF False, of ip out] obtain k where
      k: "bit m k" "m XOR 2 ^ k < m" and
      u: "allowed_words_for_pos_loop ip m out =
             (case getitem ip (int k) of Inl e \<Rightarrow> Inl e
              | Inr b \<Rightarrow> allowed_words_for_pos_loop ip (m XOR 2 ^ k) (out OR b))" by blast
    have kl: "k < length ip" using less.prems k(1) by simp
    have x: "\<And>j. bit (m XOR 2 ^ k) j \<longleftrightarrow> bit m j \<and> j \<noteq> k" using k(1) by (rule bit_xor_pow)
    have "\<forall>l. bit (m XOR 2 ^ k) l \<longrightarrow> l < length ip" using less.prems x by simp
    from less.IH [OF k(2) this, of "out OR ip ! k"] show ?thesis
      using u kl by (simp add: getitem_nat)
  qed
qed

lemma allowed_words_for_pos_result:
  "allowed_words_for_pos ip m = Inr r \<Longrightarrow>
     (\<forall>l. bit m l \<longrightarrow> l < length ip) \<and> (\<forall>w. bit r w \<longleftrightarrow> (\<exists>l. bit m l \<and> bit (ip ! l) w))"
  using allowed_words_for_pos_loop_result [of ip m 0 r] by (simp add: allowed_words_for_pos_def)

lemma allowed_words_for_pos_total:
  "(\<forall>l. bit m l \<longrightarrow> l < length ip) \<Longrightarrow> \<exists>r. allowed_words_for_pos ip m = Inr r"
  using allowed_words_for_pos_loop_total [of m ip 0] by (simp add: allowed_words_for_pos_def)

text \<open>
  \<open>pos_fits\<close>: word \<open>w\<close> of the table \<open>idxL\<close> has at position \<open>pos\<close> a letter that the domain of
  \<open>cell\<close> allows.
\<close>

definition pos_fits :: "table \<Rightarrow> bitset list \<Rightarrow> nat \<Rightarrow> int \<Rightarrow> nat \<Rightarrow> bool" where
  "pos_fits idxL d pos cell w \<longleftrightarrow>
     (\<exists>i l. norm_index (length d) cell = Some i \<and> pos < length idxL \<and>
            bit (d ! i) l \<and> l < length (idxL ! pos) \<and> bit (idxL ! pos ! l) w)"

lemma getitem_Inr: "getitem xs c = Inr v \<longleftrightarrow> (\<exists>i. norm_index (length xs) c = Some i \<and> v = xs ! i)"
  by (auto simp: getitem_def split: option.splits)

lemma norm_index_less: "norm_index n c = Some i \<Longrightarrow> i < n"
  by (auto simp: norm_index_def split: if_splits)

lemma compute_path_candidates_loop_result:
  "compute_path_candidates_loop idxL d (enumerate k cells) cand = Inr c \<Longrightarrow>
     (\<forall>w. bit c w \<longleftrightarrow> bit cand w \<and> (\<forall>j<length cells. pos_fits idxL d (k + j) (cells ! j) w))"
proof (induction cells arbitrary: k cand)
  case Nil
  then show ?case by simp
next
  case (Cons cell cells)
  from Cons.prems obtain i where i: "norm_index (length d) cell = Some i"
    and g: "getitem d cell = Inr (d ! i)"
    by (auto simp: getitem_Inr split: sum.splits)
  have split_all: "(\<forall>j<length (cell # cells). pos_fits idxL d (k + j) ((cell # cells) ! j) w) \<longleftrightarrow>
      pos_fits idxL d k cell w \<and> (\<forall>j<length cells. pos_fits idxL d (Suc k + j) (cells ! j) w)" for w
    by (auto simp: less_Suc_eq_0_disj)
  show ?case
  proof (cases "d ! i = 0")
    case True
    with Cons.prems g have "c = 0" by simp
    moreover have "\<not> pos_fits idxL d k cell w" for w using True i by (simp add: pos_fits_def)
    ultimately show ?thesis unfolding split_all by simp
  next
    case False
    with Cons.prems g obtain a where kl: "k < length idxL" and
      a: "allowed_words_for_pos (idxL ! k) (d ! i) = Inr a"
      by (auto simp: getitem_nat split: sum.splits if_splits)
    from allowed_words_for_pos_result [OF a] have
      al: "\<And>l. bit (d ! i) l \<Longrightarrow> l < length (idxL ! k)" and
      ab: "\<And>w. bit a w \<longleftrightarrow> (\<exists>l. bit (d ! i) l \<and> bit (idxL ! k ! l) w)" by auto
    have pf: "pos_fits idxL d k cell w \<longleftrightarrow> bit a w" for w
      unfolding pos_fits_def ab using i kl al by auto
    show ?thesis
    proof (cases "cand AND a = 0")
      case True
      with Cons.prems g False kl a have "c = 0" by (simp add: getitem_nat)
      moreover have "\<not> (bit cand w \<and> bit a w)" for w
      proof -
        have "bit (cand AND a) w \<longleftrightarrow> bit cand w \<and> bit a w" by (simp add: bit_and_iff)
        then show ?thesis using True by simp
      qed
      ultimately show ?thesis unfolding split_all pf by auto
    next
      case nz: False
      with Cons.prems g False kl a have
        "compute_path_candidates_loop idxL d (enumerate (Suc k) cells) (cand AND a) = Inr c"
        by (simp add: getitem_nat)
      from Cons.IH [OF this] show ?thesis unfolding split_all pf by (auto simp: bit_and_iff)
    qed
  qed
qed

lemma compute_path_candidates_loop_total:
  assumes "\<forall>j<length cells. \<exists>i. norm_index (length d) (cells ! j) = Some i"
    and "\<forall>x \<in> set d. x < 2 ^ 26"
    and "k + length cells \<le> length idxL"
    and "\<forall>row \<in> set idxL. length row = 26"
  shows "\<exists>c. compute_path_candidates_loop idxL d (enumerate k cells) cand = Inr c"
  using assms
proof (induction cells arbitrary: k cand)
  case Nil
  then show ?case by simp
next
  case (Cons cell cells)
  from Cons.prems(1) obtain i where i: "norm_index (length d) cell = Some i" by fastforce
  then have g: "getitem d cell = Inr (d ! i)" by (simp add: getitem_def)
  have il: "i < length d" using i by (rule norm_index_less)
  have kl: "k < length idxL" using Cons.prems(3) by simp
  have row: "length (idxL ! k) = 26" using Cons.prems(4) kl by simp
  have "d ! i < 2 ^ 26" using Cons.prems(2) il by simp
  then have "\<forall>l. bit (d ! i) l \<longrightarrow> l < length (idxL ! k)"
    unfolding row by (metis bit_take_bit_iff take_bit_nat_eq_self)
  from allowed_words_for_pos_total [OF this] obtain a where
    a: "allowed_words_for_pos (idxL ! k) (d ! i) = Inr a" by blast
  have rest: "\<forall>j<length cells. \<exists>i. norm_index (length d) (cells ! j) = Some i"
    using Cons.prems(1) by (auto simp: less_Suc_eq_0_disj)
  have "Suc k + length cells \<le> length idxL" using Cons.prems(3) by simp
  from Cons.IH [OF rest Cons.prems(2) this Cons.prems(4), of "cand AND a"] show ?case
    using g kl a by (simp add: getitem_nat Let_def)
qed


text \<open>
  \<open>word_fits\<close>: every cell of the path allows the letter the word has at the cell's position.
\<close>

definition word_fits :: "pystr \<Rightarrow> int list \<Rightarrow> bitset list \<Rightarrow> bool" where
  "word_fits w cells d \<longleftrightarrow>
     (\<forall>j<length cells. \<exists>i l. norm_index (length d) (cells ! j) = Some i \<and> l < 26 \<and>
         bit (d ! i) l \<and> w ! j = 65 + l)"

lemma bit_all_mask: "bit ((2::nat) ^ m - Suc 0) w \<longleftrightarrow> w < m"
  using bit_mask_iff [of m w, where ?'a = nat] by (simp add: mask_eq_exp_minus_1)

lemma compute_path_candidates_spec:
  assumes ie: "index_entry words L (index L) (all_mask L)"
    and len: "length cells = L"
    and c: "compute_path_candidates cells L d index all_mask = Inr c"
  shows "bit c wid \<longleftrightarrow> wid < length words \<and> word_fits (words ! wid) cells d"
proof (cases "words = []")
  case True
  with ie have "index L = None" by (simp add: index_entry_def)
  with c have "c = 0" by (simp add: compute_path_candidates_def)
  with True show ?thesis by simp
next
  case False
  with ie obtain tabs where t: "index L = Some tabs"
    and m: "all_mask L = Some (2 ^ length words - 1)"
    by (auto simp: index_entry_def)
  from ie t have ie': "index_entry words L (Some tabs) (all_mask L)" by simp
  have tl: "length tabs = L" using index_entry_length [OF ie'] .
  from c t m have "compute_path_candidates_loop tabs d (enumerate 0 cells) (2 ^ length words - 1) = Inr c"
    by (simp add: compute_path_candidates_def)
  from compute_path_candidates_loop_result [OF this] have
    r: "bit c wid \<longleftrightarrow> wid < length words \<and> (\<forall>j<length cells. pos_fits tabs d j (cells ! j) wid)"
    by (simp add: bit_all_mask)
  have "pos_fits tabs d j (cells ! j) wid \<longleftrightarrow>
        (\<exists>i l. norm_index (length d) (cells ! j) = Some i \<and> l < 26 \<and> bit (d ! i) l \<and>
               words ! wid ! j = 65 + l)"
    if j: "j < length cells" and w: "wid < length words" for j
  proof -
    have jl: "j < L" using j len by simp
    note b = index_entry_bits [OF ie' jl]
    show ?thesis
      unfolding pos_fits_def using b(1) b(2) b(4) [of _ wid] jl w by auto
  qed
  then show ?thesis unfolding r word_fits_def by auto
qed

lemma propagate_fixpoint:
  "propagate d pc paths index all_mask n = Inr (True, d', pc') \<Longrightarrow>
     propagate_pass d' pc' paths index all_mask n = Inr (True, d', pc', False)"
proof (induction d pc paths index all_mask n rule: propagate.induct)
  case (1 d pc paths index all_mask n)
  from "1.prems" obtain ok d1 pc1 ch where
    p: "propagate_pass d pc paths index all_mask n = Inr (ok, d1, pc1, ch)"
    by (auto simp: propagate.simps [of d pc] split: sum.splits)
  with "1.prems" have ok: ok by (auto simp: propagate.simps [of d pc] split: if_splits)
  show ?case
  proof (cases ch)
    case True
    with "1.prems" p ok have "propagate d1 pc1 paths index all_mask n = Inr (True, d', pc')"
      by (simp add: propagate.simps [of d pc])
    from "1.IH" [OF p refl refl refl _ _ this] ok True show ?thesis by simp
  next
    case False
    with "1.prems" p ok have e: "d1 = d'" "pc1 = pc'" by (simp_all add: propagate.simps [of d pc])
    from p ok False obtain nd ch1 where
      u: "update_path_cands index all_mask d (enumerate 0 paths) pc False = Inr (True, pc1, ch1)"
      and i: "intersect_domains nd [0..<n] d ch1 = Inr (True, d1, False)"
      unfolding propagate_pass_def
      by (auto split: sum.splits prod.splits if_splits option.splits)
    from intersect_domains_sum [OF i] have "d1 = d" "\<not> ch1" by auto
    moreover from update_path_cands_consistent(3) [OF u \<open>\<not> ch1\<close>] have "pc1 = pc" .
    ultimately show ?thesis using p ok False e by simp
  qed
qed

lemma propagate_consistent:
  assumes "propagate d pc paths index all_mask n = Inr (True, d', pc')"
  shows "consistent index all_mask paths d' pc'"
proof -
  from propagate_fixpoint [OF assms] obtain ch1 where
    u: "update_path_cands index all_mask d' (enumerate 0 paths) pc' False = Inr (True, pc', ch1)"
    unfolding propagate_pass_def
    by (auto split: sum.splits prod.splits if_splits option.splits)
  from update_path_cands_consistent(1) [OF u] show ?thesis .
qed

lemma propagate_cands_nonzero:
  assumes "propagate d pc paths index all_mask n = Inr (True, d', pc')" and "pid < length paths"
  shows "pc' ! pid \<noteq> 0"
proof -
  from propagate_fixpoint [OF assms(1)] obtain ch1 where
    u: "update_path_cands index all_mask d' (enumerate 0 paths) pc' False = Inr (True, pc', ch1)"
    unfolding propagate_pass_def
    by (auto split: sum.splits prod.splits if_splits option.splits)
  from update_path_cands_ok [OF u] assms(2) show ?thesis by auto
qed

text \<open>
  Claim C10. A dictionary word with a character outside \<^verbatim>\<open>A\<close>--\<^verbatim>\<open>Z\<close> at some position
  (after \<^verbatim>\<open>load_dictionary\<close> has upper-cased it) has its word id in no letter bitset of that
  position; \<^verbatim>\<open>compute_path_candidates\<close> leaves it out of the candidate set of every path of
  the word's length; and after every successful \<^verbatim>\<open>propagate\<close> no such path has it among
  its candidates, so neither the letters \<^verbatim>\<open>propagate\<close> keeps nor a word \<^verbatim>\<open>solve\<close>
  forces come from it.
\<close>

theorem non_letter_word_excluded:
  assumes "build_index words_by_len = Inr (index, all_mask)"
    and "distinct (map fst words_by_len)"
    and "pos < L"
    and "\<not> (65 \<le> dict_get words_by_len L ! wid ! pos \<and> dict_get words_by_len L ! wid ! pos \<le> 90)"
  shows "(\<forall>tabs letter. index L = Some tabs \<longrightarrow> letter < 26 \<longrightarrow> \<not> bit (tabs ! pos ! letter) wid) \<and>
         (\<forall>cells d c. length cells = L \<longrightarrow>
            compute_path_candidates cells L d index all_mask = Inr c \<longrightarrow> \<not> bit c wid) \<and>
         (\<forall>d pc paths n d' pc' pid. propagate d pc paths index all_mask n = Inr (True, d', pc') \<longrightarrow>
            pid < length paths \<longrightarrow> snd (paths ! pid) = L \<longrightarrow> length (fst (paths ! pid)) = L \<longrightarrow>
            \<not> bit (pc' ! pid) wid)"
proof -
  let ?words = "dict_get words_by_len L"
  have ie: "index_entry ?words L (index L) (all_mask L)"
    using build_index_entry [OF assms(1,2)] .
  have nl: "?words ! wid ! pos \<noteq> 65 + letter" if "letter < 26" for letter
    using assms(4) that by linarith
  have 1: "\<not> bit (tabs ! pos ! letter) wid" if "index L = Some tabs" "letter < 26" for tabs letter
    using index_entry_bits(4) [OF ie [unfolded that(1)] assms(3) that(2), of wid] nl [OF that(2)]
    by simp
  have 2: "\<not> bit c wid" if "length cells = L"
    "compute_path_candidates cells L d index all_mask = Inr c" for cells d c
  proof
    assume "bit c wid"
    with compute_path_candidates_spec [OF ie that] have "word_fits (?words ! wid) cells d" by simp
    moreover have "pos < length cells" using assms(3) that(1) by simp
    ultimately obtain l where "l < 26" "?words ! wid ! pos = 65 + l"
      unfolding word_fits_def by blast
    with nl [of l] show False by simp
  qed
  have 3: "\<not> bit (pc' ! pid) wid"
    if "propagate d pc paths index all_mask n = Inr (True, d', pc')" "pid < length paths"
      "snd (paths ! pid) = L" "length (fst (paths ! pid)) = L" for d pc paths n d' pc' pid
  proof -
    from propagate_consistent [OF that(1)] that(2,3) have
      "compute_path_candidates (fst (paths ! pid)) L d' index all_mask = Inr (pc' ! pid)"
      by (auto simp: consistent_def)
    from 2 [OF that(4) this] show ?thesis .
  qed
  from 1 2 3 show ?thesis by blast
qed



text \<open>A dictionary file with the one line \<^verbatim>\<open>a\<close> followed by e acute.\<close>

definition a_eacute :: wordsdict where
  "a_eacute = load_dictionary latin1_strip latin1_isalpha latin1_upper 2 [[97, 233]]"

lemma a_eacute_eq: "a_eacute = [(2, [[65, 201]])]"
  by (simp add: a_eacute_def latin1_simps)

lemma a_eacute_builds:
  "build_index a_eacute = Inr (index_of a_eacute, all_mask_of a_eacute)"
proof -
  have "\<exists>r. build_index a_eacute = Inr r"
    by (simp add: a_eacute_eq run_simps)
  then show ?thesis using build_index_of by blast
qed

lemma a_eacute_compute:
  "compute_path_candidates [0, 1] 2 [67108863, 67108863] (index_of a_eacute) (all_mask_of a_eacute)
     = Inr 0"
  by (simp add: a_eacute_eq run_simps)

theorem non_letter_word_excluded_witness:
  "build_index a_eacute = Inr (index_of a_eacute, all_mask_of a_eacute) \<and>
   distinct (map fst a_eacute) \<and> dict_get a_eacute 2 ! 0 ! 1 = 201 \<and>
   compute_path_candidates [0, 1] 2 [67108863, 67108863] (index_of a_eacute) (all_mask_of a_eacute)
     = Inr 0 \<and>
   \<not> bit (0::nat) 0"
proof -
  have h2: "distinct (map fst a_eacute)" by (simp add: a_eacute_eq)
  have h3: "(1::nat) < 2" by simp
  have v: "dict_get a_eacute 2 ! 0 ! 1 = 201" by (simp add: a_eacute_eq dict_get_def)
  have h4: "\<not> (65 \<le> dict_get a_eacute 2 ! 0 ! 1 \<and> dict_get a_eacute 2 ! 0 ! 1 \<le> 90)"
    unfolding v by simp
  from non_letter_word_excluded [OF a_eacute_builds h2 h3 h4] a_eacute_compute
  have "\<not> bit (0::nat) 0" by simp
  with a_eacute_builds h2 v a_eacute_compute show ?thesis by simp
qed











section \<open>The state after a successful propagation\<close>

lemma setitem_Inr:
  "setitem xs c v = Inr ys \<longleftrightarrow> (\<exists>i. norm_index (length xs) c = Some i \<and> ys = xs[i := v])"
  by (auto simp: setitem_def split: option.splits)

lemma new_domains_cells_subset:
  "new_domains_cells cands idxL pcs nd = Inr (Some nd') \<Longrightarrow>
     length nd' = length nd \<and> (\<forall>i j. bit (nd' ! i) j \<longrightarrow> bit (nd ! i) j)"
proof (induction pcs arbitrary: nd)
  case Nil
  then show ?case by simp
next
  case (Cons p pcs)
  obtain pos cell where p: "p = (pos, cell)" by (cases p)
  from Cons.prems obtain i letters where
    i: "norm_index (length nd) cell = Some i" and
    r: "new_domains_cells cands idxL pcs (nd[i := nd ! i AND letters]) = Inr (Some nd')"
    by (auto simp: p getitem_Inr setitem_Inr split: sum.splits if_splits)
  from Cons.IH [OF r] have len: "length nd' = length nd" and
    ih: "\<And>k j. bit (nd' ! k) j \<Longrightarrow> bit (nd[i := nd ! i AND letters] ! k) j" by auto
  have il: "i < length nd" using i by (rule norm_index_less)
  have "bit (nd ! k) j" if "bit (nd' ! k) j" for k j
  proof (cases "k = i")
    case True
    with ih [OF that] il show ?thesis by (simp add: bit_and_iff)
  next
    case False
    with ih [OF that] show ?thesis by simp
  qed
  with len show ?case by blast
qed

lemma new_domains_loop_subset:
  "new_domains_loop index pc ps nd = Inr (Some nd') \<Longrightarrow>
     length nd' = length nd \<and> (\<forall>i j. bit (nd' ! i) j \<longrightarrow> bit (nd ! i) j)"
proof (induction ps arbitrary: nd)
  case Nil
  then show ?case by simp
next
  case (Cons p ps)
  obtain pid cells L where p: "p = (pid, cells, L)" by (cases p)
  from Cons.prems obtain cands idxL nd1 where
    c: "new_domains_cells cands idxL (enumerate 0 cells) nd = Inr (Some nd1)" and
    r: "new_domains_loop index pc ps nd1 = Inr (Some nd')"
    by (auto simp: p split: sum.splits option.splits)
  from new_domains_cells_subset [OF c] Cons.IH [OF r] show ?case by auto
qed

lemma bit_ALL_letters: "bit ALL_letters j \<longleftrightarrow> j < 26"
  using bit_all_mask [of 26 j] by (simp add: ALL_letters_def)

lemma intersect_domains_untouched:
  "intersect_domains nd is d ch = Inr (ok, d3, ch3) \<Longrightarrow> i \<notin> set is \<Longrightarrow> d3 ! i = d ! i"
proof (induction "is" arbitrary: d ch)
  case Nil
  then show ?case by simp
next
  case (Cons k "is")
  from Cons.prems(1) obtain a b where
    a: "getitem nd (int k) = Inr a" and b: "getitem d (int k) = Inr b"
    by (auto split: sum.splits)
  from Cons.prems(2) have ne: "i \<noteq> k" and ni: "i \<notin> set is" by auto
  show ?case
  proof (cases "a AND b = 0")
    case True
    with Cons.prems(1) a b show ?thesis by simp
  next
    case False
    define d1 where "d1 = (if a AND b \<noteq> b then d[k := a AND b] else d)"
    from Cons.prems(1) a b False obtain ch1 where
      "intersect_domains nd is d1 ch1 = Inr (ok, d3, ch3)"
      by (auto simp: d1_def Let_def split: if_splits)
    from Cons.IH [OF this ni] ne show ?thesis by (simp add: d1_def)
  qed
qed

lemma intersect_domains_visited:
  "intersect_domains nd is d ch = Inr (True, d3, ch3) \<Longrightarrow>
     (\<forall>i \<in> set is. i < length nd \<and> i < length d \<and> d3 ! i \<noteq> 0 \<and>
        (\<forall>j. bit (d3 ! i) j \<longrightarrow> bit (nd ! i) j))"
proof (induction "is" arbitrary: d ch)
  case Nil
  then show ?case by simp
next
  case (Cons k "is")
  from Cons.prems(1) obtain a b where
    a: "getitem nd (int k) = Inr a" and b: "getitem d (int k) = Inr b"
    by (auto split: sum.splits)
  from a b have kn: "k < length nd" "a = nd ! k" and kd: "k < length d" "b = d ! k"
    by (auto simp: getitem_nat split: if_splits)
  from Cons.prems(1) a b have nz: "a AND b \<noteq> 0" by (auto simp: Let_def split: if_splits)
  define d1 where "d1 = (if a AND b \<noteq> b then d[k := a AND b] else d)"
  from Cons.prems(1) a b nz obtain ch1 where
    r: "intersect_domains nd is d1 ch1 = Inr (True, d3, ch3)"
    by (auto simp: d1_def Let_def split: if_splits)
  have len: "length d1 = length d" by (simp add: d1_def)
  have d1k: "d1 ! k = a AND b" using kd by (auto simp: d1_def)
  from Cons.IH [OF r] have ih: "\<forall>i \<in> set is. i < length nd \<and> i < length d \<and> d3 ! i \<noteq> 0 \<and>
        (\<forall>j. bit (d3 ! i) j \<longrightarrow> bit (nd ! i) j)" using len by simp
  have "k < length nd \<and> k < length d \<and> d3 ! k \<noteq> 0 \<and> (\<forall>j. bit (d3 ! k) j \<longrightarrow> bit (nd ! k) j)"
  proof (cases "k \<in> set is")
    case True
    with ih show ?thesis by blast
  next
    case False
    from intersect_domains_untouched [OF r False] have "d3 ! k = a AND b" using d1k by simp
    then show ?thesis using kn kd nz by (simp add: bit_and_iff)
  qed
  with ih show ?case by simp
qed

lemma propagate_pass_length:
  assumes "propagate_pass d pc paths index all_mask n = Inr (ok, d', pc', ch)"
  shows "length d' = length d \<and> length pc' = length pc"
proof -
  from assms obtain ok1 ch1 where
    u: "update_path_cands index all_mask d (enumerate 0 paths) pc False = Inr (ok1, pc', ch1)"
    unfolding propagate_pass_def by (auto split: sum.splits prod.splits if_splits option.splits)
  from update_path_cands_any [OF u] have "length pc' = length pc" by simp
  moreover have "length d' = length d"
  proof (cases "d' = d")
    case True
    then show ?thesis by simp
  next
    case False
    with assms u obtain nd ch2 where
      "intersect_domains nd [0..<n] d ch2 = Inr (ok, d', ch)"
      unfolding propagate_pass_def by (auto split: sum.splits prod.splits if_splits option.splits)
    from intersect_domains_subset [OF this] show ?thesis by simp
  qed
  ultimately show ?thesis by simp
qed

lemma propagate_length:
  "propagate d pc paths index all_mask n = Inr (ok, d', pc') \<Longrightarrow>
     length d' = length d \<and> length pc' = length pc"
proof (induction d pc paths index all_mask n rule: propagate.induct)
  case (1 d pc paths index all_mask n)
  from "1.prems" obtain ok1 d1 pc1 ch where
    p: "propagate_pass d pc paths index all_mask n = Inr (ok1, d1, pc1, ch)"
    by (auto simp: propagate.simps [of d pc] split: sum.splits)
  note l = propagate_pass_length [OF p]
  show ?case
  proof (cases "ok1 \<and> ch")
    case True
    with "1.prems" p have "propagate d1 pc1 paths index all_mask n = Inr (ok, d', pc')"
      by (simp add: propagate.simps [of d pc])
    from "1.IH" [OF p refl refl refl _ _ this] True l show ?thesis by simp
  next
    case False
    with "1.prems" p have "d' = d1 \<and> pc' = pc1"
      by (auto simp: propagate.simps [of d pc] split: if_splits)
    with l show ?thesis by simp
  qed
qed

text \<open>After a successful \<^verbatim>\<open>propagate\<close> the first \<open>n_cells\<close> domains are nonempty sets of letters.\<close>

lemma propagate_domains:
  assumes "propagate d pc paths index all_mask n = Inr (True, d', pc')" and "i < n"
  shows "i < length d' \<and> d' ! i \<noteq> 0 \<and> (\<forall>j. bit (d' ! i) j \<longrightarrow> j < 26)"
proof -
  from propagate_fixpoint [OF assms(1)] obtain pc1 ch1 nd where
    n: "new_domains_loop index pc1 (enumerate 0 paths) (replicate n ALL_letters) = Inr (Some nd)" and
    i: "intersect_domains nd [0..<n] d' ch1 = Inr (True, d', False)"
    unfolding propagate_pass_def
    by (auto split: sum.splits prod.splits if_splits option.splits)
  from intersect_domains_visited [OF i] assms(2) have
    v: "i < length nd" "i < length d'" "d' ! i \<noteq> 0" "\<And>j. bit (d' ! i) j \<Longrightarrow> bit (nd ! i) j"
    by auto
  from new_domains_loop_subset [OF n] have
    "length nd = n" "\<And>j. bit (nd ! i) j \<Longrightarrow> bit (replicate n ALL_letters ! i) j" by auto
  with assms(2) have "\<And>j. bit (nd ! i) j \<Longrightarrow> j < 26" by (simp add: bit_ALL_letters)
  with v show ?thesis by blast
qed

lemma and_pred_rec:
  "(x::nat) \<noteq> 0 \<Longrightarrow> int x AND (int x - 1) = int (if odd x then x - 1 else 2 * nat (int (x div 2) AND (int (x div 2) - 1)))"
proof (cases "odd x")
  case True
  assume "x \<noteq> 0"
  from True obtain y where x: "x = 2 * y + 1" by (auto elim: oddE)
  have "int x AND (int x - 1) = of_bool (odd (int x) \<and> odd (int x - 1))
          + 2 * ((int x div 2) AND ((int x - 1) div 2))" by (rule and_int_rec)
  also have "\<dots> = 2 * (int y AND int y)" unfolding x by simp
  finally show ?thesis using True x by simp
next
  case False
  assume nz: "x \<noteq> 0"
  from False obtain y where x: "x = 2 * y" by (auto elim: evenE)
  with nz have y: "0 < y" by simp
  have d: "(int x - 1) div 2 = int y - 1" unfolding x by simp
  have "int x AND (int x - 1) = of_bool (odd (int x) \<and> odd (int x - 1))
          + 2 * ((int x div 2) AND ((int x - 1) div 2))" by (rule and_int_rec)
  also have "\<dots> = 2 * (int y AND (int y - 1))" unfolding d unfolding x by simp
  finally have e: "int x AND (int x - 1) = 2 * (int y AND (int y - 1))" .
  have "0 \<le> int y AND (int y - 1)" by simp
  then show ?thesis using False e x by simp
qed

lemma single_bit:
  "x \<noteq> 0 \<Longrightarrow> int x AND (int x - 1) = 0 \<Longrightarrow> \<exists>k. x = 2 ^ k"
proof (induction x rule: less_induct)
  case (less x)
  show ?case
  proof (cases "odd x")
    case True
    with less.prems and_pred_rec [of x] have "x - 1 = 0" by simp
    with less.prems(1) have "x = 2 ^ 0" by simp
    then show ?thesis by blast
  next
    case False
    with less.prems and_pred_rec [of x] have
      z: "int (x div 2) AND (int (x div 2) - 1) = 0"
      by (simp add: nat_eq_iff2 split: if_splits)
    from False less.prems(1) have "x div 2 < x" "x div 2 \<noteq> 0" by auto
    from less.IH [OF this z] obtain k where "x div 2 = 2 ^ k" by blast
    with False have "x = 2 ^ Suc k" by auto
    then show ?thesis by blast
  qed
qed

lemma solved_iff: "solved ds \<longleftrightarrow> (\<forall>x \<in> set ds. int x AND (int x - 1) = 0)"
  by (induction ds) auto


section \<open>The loader\<close>

lemma scan_coords_bounds:
  "scan_coords coords mr mc = (mr', mc') \<Longrightarrow>
     mr \<le> mr' \<and> mc \<le> mc' \<and> (\<forall>(r, c) \<in> set coords. r \<le> mr' \<and> c \<le> mc')"
proof (induction coords arbitrary: mr mc)
  case Nil
  then show ?case by simp
next
  case (Cons p coords)
  obtain r c where p: "p = (r, c)" by (cases p)
  from Cons.prems have
    "scan_coords coords (if r > mr then r else mr) (if c > mc then c else mc) = (mr', mc')"
    by (simp add: p)
  from Cons.IH [OF this] show ?case by (auto simp: p split: if_splits)
qed

lemma load_paths_loop_spec:
  "load_paths_loop data raw mr mc ml = (raw', nrows, ncols, max_len) \<Longrightarrow>
     raw' = raw @ map (\<lambda>coords. (coords, length coords)) data \<and>
     mr < nrows \<and> mc < ncols \<and> ml \<le> max_len \<and>
     (\<forall>coords \<in> set data. length coords \<le> max_len \<and>
        (\<forall>(r, c) \<in> set coords. r < nrows \<and> c < ncols))"
proof (induction data arbitrary: raw mr mc ml)
  case Nil
  then show ?case by auto
next
  case (Cons coords data)
  obtain mr1 mc1 where s: "scan_coords coords mr mc = (mr1, mc1)" by (cases "scan_coords coords mr mc")
  from Cons.prems s have
    "load_paths_loop data (raw @ [(coords, length coords)]) mr1 mc1
       (if length coords > ml then length coords else ml) = (raw', nrows, ncols, max_len)"
    by (simp add: Let_def)
  from Cons.IH [OF this] scan_coords_bounds [OF s] show ?case
    by (auto split: if_splits)
qed

lemma cell_in_grid:
  fixes r c nrows ncols :: int
  assumes "0 \<le> r" "r < nrows" "0 \<le> c" "c < ncols"
  shows "0 \<le> r * ncols + c \<and> r * ncols + c < nrows * ncols"
proof -
  have "(r + 1) * ncols \<le> nrows * ncols"
    using assms by (intro mult_right_mono) simp_all
  moreover have "r * ncols + c < (r + 1) * ncols" using assms by (simp add: algebra_simps)
  moreover have "0 \<le> r * ncols" using assms by simp
  ultimately show ?thesis using assms by linarith
qed

lemma Max_insert_max:
  "finite S \<Longrightarrow> Max (insert (max a b) S) = Max (insert a (insert b S))" for a b :: "'a::linorder"
  by (cases "S = {}") (simp_all add: max.assoc)

lemma Max_insert_Max:
  fixes a :: "'a::linorder"
  assumes "finite A" "finite B"
  shows "Max (insert (Max (insert a A)) B) = Max (insert a (A \<union> B))"
proof (cases "B = {}")
  case True
  then show ?thesis by simp
next
  case False
  have "Max (insert a (A \<union> B)) = Max (insert a A \<union> B)" by simp
  also have "\<dots> = max (Max (insert a A)) (Max B)"
    using assms False by (intro Max_Un) simp_all
  finally show ?thesis using assms False by simp
qed

lemma scan_coords_exact:
  "scan_coords coords mr mc
     = (Max (insert mr (fst ` set coords)), Max (insert mc (snd ` set coords)))"
proof (induction coords arbitrary: mr mc)
  case Nil
  then show ?case by simp
next
  case (Cons p coords)
  obtain r c where p: "p = (r, c)" by (cases p)
  have m: "(if r > mr then r else mr) = max mr r" "(if c > mc then c else mc) = max mc c"
    by (simp_all add: max_def)
  show ?case
    unfolding p scan_coords.simps m Cons.IH
    by (simp add: Max_insert_max [symmetric] del: Max_insert)
qed

lemma load_paths_loop_exact:
  "load_paths_loop data raw mr mc ml
     = (raw @ map (\<lambda>coords. (coords, length coords)) data,
        Max (insert mr (\<Union>coords \<in> set data. fst ` set coords)) + 1,
        Max (insert mc (\<Union>coords \<in> set data. snd ` set coords)) + 1,
        Max (insert ml (length ` set data)))"
proof (induction data arbitrary: raw mr mc ml)
  case Nil
  then show ?case by simp
next
  case (Cons coords data)
  have l: "(if length coords > ml then length coords else ml) = max ml (length coords)"
    by (simp add: max_def)
  have f: "finite (\<Union>coords \<in> set data. fst ` set coords)"
    "finite (\<Union>coords \<in> set data. snd ` set coords)" by simp_all
  have a: "Max (insert (Max (insert mr (fst ` set coords))) (\<Union>coords \<in> set data. fst ` set coords))
      = Max (insert mr (\<Union>coords \<in> set (coords # data). fst ` set coords))"
    using Max_insert_Max [of "fst ` set coords" "\<Union>coords \<in> set data. fst ` set coords" mr] f
    by simp
  have b: "Max (insert (Max (insert mc (snd ` set coords))) (\<Union>coords \<in> set data. snd ` set coords))
      = Max (insert mc (\<Union>coords \<in> set (coords # data). snd ` set coords))"
    using Max_insert_Max [of "snd ` set coords" "\<Union>coords \<in> set data. snd ` set coords" mc] f
    by simp
  have c: "Max (insert (max ml (length coords)) (length ` set data))
      = Max (insert ml (length ` set (coords # data)))"
    using Max_insert_max [of "length ` set data" ml "length coords"] by simp
  show ?case
    unfolding load_paths_loop.simps scan_coords_exact Let_def prod.case l Cons.IH a b c
    by simp
qed

subsection \<open>Negative cell indices\<close>

text \<open>
  Python's rule for a negative list index, as a function on indices: an index \<open>c\<close> with
  \<open>- n \<le> c < 0\<close> stands for \<open>n + c\<close>.
\<close>

definition wrap_index :: "nat \<Rightarrow> int \<Rightarrow> int" where
  "wrap_index n c = (if c < 0 \<and> - int n \<le> c then int n + c else c)"

definition wrap_path :: "nat \<Rightarrow> path \<Rightarrow> path" where
  "wrap_path n p = (map (wrap_index n) (fst p), snd p)"

lemma wrap_path_simp [simp]: "wrap_path n (cells, L) = (map (wrap_index n) cells, L)"
  by (simp add: wrap_path_def)

lemma norm_index_wrap: "norm_index n (wrap_index n c) = norm_index n c"
  by (auto simp: norm_index_def wrap_index_def)

lemma getitem_wrap: "length xs = n \<Longrightarrow> getitem xs (wrap_index n c) = getitem xs c"
  by (simp add: getitem_def norm_index_wrap)

lemma setitem_wrap: "length xs = n \<Longrightarrow> setitem xs (wrap_index n c) v = setitem xs c v"
  by (simp add: setitem_def norm_index_wrap)

lemma setitem_length: "setitem xs c v = Inr ys \<Longrightarrow> length ys = length xs"
  by (auto simp: setitem_def split: option.splits)

lemma compute_path_candidates_loop_wrap:
  "length d = n \<Longrightarrow>
     compute_path_candidates_loop idxL d (enumerate k (map (wrap_index n) cells)) cand
       = compute_path_candidates_loop idxL d (enumerate k cells) cand"
  by (induction cells arbitrary: k cand) (simp_all add: getitem_wrap Let_def split: sum.splits)

lemma compute_path_candidates_wrap:
  "length d = n \<Longrightarrow>
     compute_path_candidates (map (wrap_index n) cells) L d index all_mask
       = compute_path_candidates cells L d index all_mask"
  by (simp add: compute_path_candidates_def compute_path_candidates_loop_wrap split: option.splits)

lemma update_path_cands_wrap:
  "length d = n \<Longrightarrow>
     update_path_cands index all_mask d (enumerate k (map (wrap_path n) ps)) pc ch
       = update_path_cands index all_mask d (enumerate k ps) pc ch"
proof (induction ps arbitrary: k pc ch)
  case Nil
  then show ?case by simp
next
  case (Cons p ps)
  obtain cells L where p: "p = (cells, L)" by (cases p)
  show ?case
    using Cons.IH [OF Cons.prems] Cons.prems
    by (simp add: p compute_path_candidates_wrap split: sum.splits)
qed

lemma new_domains_cells_length:
  "new_domains_cells cands idxL pcs nd = Inr (Some nd') \<Longrightarrow> length nd' = length nd"
  using new_domains_cells_subset by blast

lemma new_domains_cells_wrap:
  "length nd = n \<Longrightarrow>
     new_domains_cells cands idxL (enumerate k (map (wrap_index n) cells)) nd
       = new_domains_cells cands idxL (enumerate k cells) nd"
proof (induction cells arbitrary: k nd)
  case Nil
  then show ?case by simp
next
  case (Cons c cells)
  have "new_domains_cells cands idxL (enumerate (Suc k) (map (wrap_index n) cells)) nd1
      = new_domains_cells cands idxL (enumerate (Suc k) cells) nd1"
    if "setitem nd c v = Inr nd1" for v nd1
    using Cons.IH [of nd1 "Suc k"] setitem_length [OF that] Cons.prems by simp
  then show ?case
    using Cons.prems
    by (auto simp: getitem_wrap setitem_wrap split: sum.splits)
qed

lemma new_domains_loop_wrap:
  "length nd = n \<Longrightarrow>
     new_domains_loop index pc (enumerate k (map (wrap_path n) ps)) nd
       = new_domains_loop index pc (enumerate k ps) nd"
proof (induction ps arbitrary: k nd)
  case Nil
  then show ?case by simp
next
  case (Cons p ps)
  obtain cells L where p: "p = (cells, L)" by (cases p)
  have "new_domains_loop index pc (enumerate (Suc k) (map (wrap_path n) ps)) nd1
      = new_domains_loop index pc (enumerate (Suc k) ps) nd1"
    if "new_domains_cells cands idxL (enumerate 0 cells) nd = Inr (Some nd1)" for cands idxL nd1
    using Cons.IH [of nd1 "Suc k"] new_domains_cells_length [OF that] Cons.prems by simp
  then show ?case
    using Cons.prems
    by (auto simp: p new_domains_cells_wrap split: sum.splits option.splits)
qed

lemma propagate_pass_wrap:
  "length d = n \<Longrightarrow>
     propagate_pass d pc (map (wrap_path n) paths) index all_mask n
       = propagate_pass d pc paths index all_mask n"
proof -
  assume l: "length d = n"
  have e1: "update_path_cands index all_mask d (enumerate 0 (map (wrap_path n) paths)) pc False
      = update_path_cands index all_mask d (enumerate 0 paths) pc False"
    using l by (rule update_path_cands_wrap)
  have e2: "new_domains_loop index pc1 (enumerate 0 (map (wrap_path n) paths)) (replicate n ALL_letters)
      = new_domains_loop index pc1 (enumerate 0 paths) (replicate n ALL_letters)" for pc1
    by (rule new_domains_loop_wrap) simp
  show ?thesis unfolding propagate_pass_def e1 e2 ..
qed


lemma propagate_wrap:
  "length d = n \<Longrightarrow>
     propagate d pc (map (wrap_path n) paths) index all_mask n
       = propagate d pc paths index all_mask n"
proof (induction d pc paths index all_mask n rule: propagate.induct)
  case (1 d pc paths index all_mask n)
  note e = propagate_pass_wrap [OF "1.prems", of pc paths index all_mask]
  show ?case
  proof (cases "propagate_pass d pc paths index all_mask n")
    case (Inl err)
    then show ?thesis
      by (simp add: propagate.simps [of d pc paths] propagate.simps [of d pc "map (wrap_path n) paths"] e)
  next
    case (Inr r)
    obtain ok d1 pc1 ch where r: "r = (ok, d1, pc1, ch)" by (cases r)
    have l: "length d1 = n" using propagate_pass_length [OF Inr [unfolded r]] "1.prems" by simp
    show ?thesis
    proof (cases "ok \<and> ch")
      case True
      from "1.IH" [OF Inr r [symmetric] refl refl _ _ l] True
      have "propagate d1 pc1 (map (wrap_path n) paths) index all_mask n
              = propagate d1 pc1 paths index all_mask n" by simp
      then show ?thesis using Inr r True
        by (simp add: propagate.simps [of d pc paths]
            propagate.simps [of d pc "map (wrap_path n) paths"] e)
    next
      case False
      then show ?thesis using Inr r
        by (auto simp: propagate.simps [of d pc paths]
            propagate.simps [of d pc "map (wrap_path n) paths"] e)
    qed
  qed
qed

lemma force_cells_length:
  "force_cells w pcs d = Inr (ok, d2) \<Longrightarrow> length d2 = length d"
proof (induction pcs arbitrary: d)
  case Nil
  then show ?case by simp
next
  case (Cons p pcs)
  obtain pos cell where p: "p = (pos, cell)" by (cases p)
  show ?case
  proof (cases "d2 = d")
    case True
    then show ?thesis by simp
  next
    case False
    with Cons.prems obtain d1 v where
      s: "setitem d cell v = Inr d1" and r: "force_cells w pcs d1 = Inr (ok, d2)"
      by (auto simp: p Let_def split: sum.splits if_splits)
    from Cons.IH [OF r] setitem_length [OF s] show ?thesis by simp
  qed
qed

lemma force_cells_wrap:
  "length d = n \<Longrightarrow>
     force_cells w (enumerate k (map (wrap_index n) cells)) d
       = force_cells w (enumerate k cells) d"
proof (induction cells arbitrary: k d)
  case Nil
  then show ?case by simp
next
  case (Cons c cells)
  have "force_cells w (enumerate (Suc k) (map (wrap_index n) cells)) d1
      = force_cells w (enumerate (Suc k) cells) d1"
    if "setitem d c v = Inr d1" for v d1
    using Cons.IH [of d1 "Suc k"] setitem_length [OF that] Cons.prems by simp
  then show ?case
    using Cons.prems
    by (auto simp: getitem_wrap setitem_wrap Let_def split: sum.splits)
qed

lemma branch_child_wrap:
  "length d = n \<Longrightarrow>
     branch_child d pc pid (map (wrap_index n) cells) words wid
       = branch_child d pc pid cells words wid"
proof -
  assume l: "length d = n"
  have e: "force_cells w (enumerate 0 (map (wrap_index n) cells)) d
      = force_cells w (enumerate 0 cells) d" for w
    using l by (rule force_cells_wrap)
  show ?thesis unfolding branch_child_def e ..
qed

lemma branch_child_length:
  "branch_child d pc pid cells words wid = Inr (Some (d2, pc2)) \<Longrightarrow>
     length d2 = length d \<and> length pc2 = length pc"
  unfolding branch_child_def
  by (auto split: sum.splits if_splits dest: force_cells_length setitem_length)

fun wrap_node :: "nat \<Rightarrow> node \<Rightarrow> node" where
  "wrap_node n (Answer r) = Answer r"
| "wrap_node n (Branch d pc pid cells words wids) =
     Branch d pc pid (map (wrap_index n) cells) words wids"

lemma getitem_map:
  "getitem (map f xs) c = (case getitem xs c of Inl e \<Rightarrow> Inl e | Inr x \<Rightarrow> Inr (f x))"
  by (auto simp: getitem_def norm_index_less split: option.splits)

lemma solve_node_wrap:
  assumes "length d = n"
  shows "solve_node d pc (map (wrap_path n) paths) index all_mask n wbl
       = (case solve_node d pc paths index all_mask n wbl of
            Inl e \<Rightarrow> Inl e | Inr nd \<Rightarrow> Inr (wrap_node n nd))"
  unfolding solve_node_def propagate_wrap [OF assms]
  by (auto simp: getitem_map split: sum.splits option.splits prod.splits)

lemma solve_node_length:
  assumes "solve_node d pc paths index all_mask n wbl = Inr (Branch d' pc' pid cells words wids)"
  shows "length d' = length d \<and> length pc' = length pc"
proof -
  from assms obtain ok where "propagate d pc paths index all_mask n = Inr (ok, d', pc')"
    unfolding solve_node_def
    by (auto split: sum.splits option.splits prod.splits if_splits)
  from propagate_length [OF this] show ?thesis .
qed

lemma solve_wrap_aux:
  "(\<forall>d pc. length d = n \<longrightarrow>
      solve depth d pc (map (wrap_path n) paths) index all_mask n wbl
        = solve depth d pc paths index all_mask n wbl) \<and>
   (\<forall>d pc pid cells words wids. length d = n \<longrightarrow>
      branches depth d pc (map (wrap_path n) paths) index all_mask n wbl pid
          (map (wrap_index n) cells) words wids
        = branches depth d pc paths index all_mask n wbl pid cells words wids)"
proof (induction depth)
  case 0
  have s: "\<forall>d pc. length d = n \<longrightarrow>
      solve 0 d pc (map (wrap_path n) paths) index all_mask n wbl
        = solve 0 d pc paths index all_mask n wbl" by simp
  have "branches 0 d pc (map (wrap_path n) paths) index all_mask n wbl pid
          (map (wrap_index n) cells) words wids
        = branches 0 d pc paths index all_mask n wbl pid cells words wids"
    if "length d = n" for d pc pid cells words wids
    using that by (induction wids) (auto simp: branch_child_wrap split: sum.splits option.splits)
  with s show ?case by blast
next
  case (Suc depth)
  then have ihb: "\<And>d pc pid cells words wids. length d = n \<Longrightarrow>
      branches depth d pc (map (wrap_path n) paths) index all_mask n wbl pid
          (map (wrap_index n) cells) words wids
        = branches depth d pc paths index all_mask n wbl pid cells words wids" by blast
  have s: "solve (Suc depth) d pc (map (wrap_path n) paths) index all_mask n wbl
        = solve (Suc depth) d pc paths index all_mask n wbl" if l: "length d = n" for d pc
  proof (cases "solve_node d pc paths index all_mask n wbl")
    case (Inl e)
    then show ?thesis by (simp add: solve_node_wrap [OF l])
  next
    case (Inr nd)
    show ?thesis
    proof (cases nd)
      case (Answer r)
      with Inr show ?thesis by (simp add: solve_node_wrap [OF l])
    next
      case (Branch d' pc' pid cells words wids)
      from solve_node_length [OF Inr [unfolded Branch]] l have "length d' = n" by simp
      from ihb [OF this] Inr Branch show ?thesis by (simp add: solve_node_wrap [OF l])
    qed
  qed
  have "branches (Suc depth) d pc (map (wrap_path n) paths) index all_mask n wbl pid
          (map (wrap_index n) cells) words wids
        = branches (Suc depth) d pc paths index all_mask n wbl pid cells words wids"
    if l: "length d = n" for d pc pid cells words wids
  proof (induction wids)
    case Nil
    show ?case by simp
  next
    case (Cons wid wids)
    have "solve (Suc depth) d2 pc2 (map (wrap_path n) paths) index all_mask n wbl
        = solve (Suc depth) d2 pc2 paths index all_mask n wbl"
      if "branch_child d pc pid cells words wid = Inr (Some (d2, pc2))" for d2 pc2
      using s [of d2 pc2] branch_child_length [OF that] l by simp
    then show ?case
      using Cons.IH by (auto simp: branch_child_wrap [OF l] split: sum.splits option.splits)
  qed
  with s show ?case by blast
qed

lemma solve_wrap:
  "length d = n \<Longrightarrow>
     solve depth d pc (map (wrap_path n) paths) index all_mask n wbl
       = solve depth d pc paths index all_mask n wbl"
  using solve_wrap_aux [of n depth paths index all_mask wbl] by blast

lemma initial_cands_wrap:
  "initial_cands all_mask (map (wrap_path n) paths) = initial_cands all_mask paths"
  by (induction paths) (auto simp: initial_cands_def wrap_path_def)

text \<open>
  Claim C5, amended. \<^verbatim>\<open>load_paths\<close> rejects no path. It returns every path of the input
  with its coordinates unchanged and its length; the grid it infers has exactly one more row
  than the largest row and one more column than the largest column of the input, both maxima
  taken from 0 upwards, so a negative coordinate does not enlarge it. \<^verbatim>\<open>main\<close> linearises
  every cell \<^verbatim>\<open>(r, c)\<close> to \<^verbatim>\<open>r * ncols + c\<close> and hands the paths to \<^verbatim>\<open>solve\<close> with no
  check in between. A cell with non-negative coordinates is linearised to an index of the
  grid. A negative linearised cell \<open>x\<close> with \<open>- n_cells \<le> x\<close> is nowhere rejected: the
  solver returns for the paths as given exactly what it returns for the paths in which each
  such cell is replaced by \<open>n_cells + x\<close>, the cell Python's negative indexing reads.
\<close>

theorem load_paths_rejects_nothing:
  assumes "load_paths data = (raw_paths, nrows, ncols, max_len)"
    and "paths = linear_paths raw_paths ncols"
    and "n_cells = nat (nrows * ncols)"
    and "wbl = load_dictionary strip isalpha upper max_len lines"
  shows "raw_paths = map (\<lambda>coords. (coords, length coords)) data \<and>
         nrows = Max (insert 0 (\<Union>coords \<in> set data. fst ` set coords)) + 1 \<and>
         ncols = Max (insert 0 (\<Union>coords \<in> set data. snd ` set coords)) + 1 \<and>
         max_len = Max (insert 0 (length ` set data)) \<and>
         paths = map (\<lambda>coords. (map (\<lambda>(r, c). r * ncols + c) coords, length coords)) data \<and>
         (\<forall>coords \<in> set data. \<forall>(r, c) \<in> set coords.
            0 \<le> r \<and> 0 \<le> c \<longrightarrow> 0 \<le> r * ncols + c \<and> r * ncols + c < int n_cells) \<and>
         main strip isalpha upper depth data lines =
           (case build_index wbl of
              Inl e \<Rightarrow> Inl e
            | Inr (index, all_mask) \<Rightarrow>
                (case solve depth (replicate n_cells ALL_letters) (initial_cands all_mask paths)
                        paths index all_mask n_cells wbl of
                   Inl e \<Rightarrow> Inl e
                 | Inr None \<Rightarrow> Inr [no_solution_line]
                 | Inr (Some sol) \<Rightarrow> print_board sol ncols [0..<nat nrows])) \<and>
         (\<forall>index all_mask.
            solve depth (replicate n_cells ALL_letters) (initial_cands all_mask paths)
              paths index all_mask n_cells wbl
            = solve depth (replicate n_cells ALL_letters)
                (initial_cands all_mask (map (wrap_path n_cells) paths))
                (map (wrap_path n_cells) paths) index all_mask n_cells wbl)"
proof -
  from assms(1) have
    a: "raw_paths = map (\<lambda>coords. (coords, length coords)) data"
       "nrows = Max (insert 0 (\<Union>coords \<in> set data. fst ` set coords)) + 1"
       "ncols = Max (insert 0 (\<Union>coords \<in> set data. snd ` set coords)) + 1"
       "max_len = Max (insert 0 (length ` set data))"
    by (simp_all add: load_paths_def load_paths_loop_exact)
  have p: "paths = map (\<lambda>coords. (map (\<lambda>(r, c). r * ncols + c) coords, length coords)) data"
    using assms(2) a(1) by (simp add: linear_paths_def comp_def)
  from load_paths_loop_spec [OF assms(1) [unfolded load_paths_def]] have
    b: "\<And>coords r c. coords \<in> set data \<Longrightarrow> (r, c) \<in> set coords \<Longrightarrow> r < nrows \<and> c < ncols"
    and pos: "0 < nrows" "0 < ncols"
    by auto
  have n: "int n_cells = nrows * ncols" using assms(3) pos by simp
  have g: "0 \<le> r * ncols + c \<and> r * ncols + c < int n_cells"
    if "coords \<in> set data" "(r, c) \<in> set coords" "0 \<le> r" "0 \<le> c" for coords r c
    using b [OF that(1,2)] cell_in_grid [of r nrows c ncols] that(3,4) unfolding n by blast
  have m: "main strip isalpha upper depth data lines =
           (case build_index wbl of
              Inl e \<Rightarrow> Inl e
            | Inr (index, all_mask) \<Rightarrow>
                (case solve depth (replicate n_cells ALL_letters) (initial_cands all_mask paths)
                        paths index all_mask n_cells wbl of
                   Inl e \<Rightarrow> Inl e
                 | Inr None \<Rightarrow> Inr [no_solution_line]
                 | Inr (Some sol) \<Rightarrow> print_board sol ncols [0..<nat nrows]))"
    unfolding main_def assms(1) prod.case Let_def assms(2,3,4) ..
  have w: "solve depth (replicate n_cells ALL_letters) (initial_cands all_mask paths)
              paths index all_mask n_cells wbl
            = solve depth (replicate n_cells ALL_letters)
                (initial_cands all_mask (map (wrap_path n_cells) paths))
                (map (wrap_path n_cells) paths) index all_mask n_cells wbl" for index all_mask
    unfolding initial_cands_wrap by (rule solve_wrap [symmetric]) simp
  from a p g m w show ?thesis by blast
qed

theorem load_paths_rejects_nothing_witness:
  "load_paths [[(0, 0), (0, -1)]] = ([([(0, 0), (0, -1)], 2)], 1, 1, 2) \<and>
   linear_paths [([(0, 0), (0, -1)], 2)] 1 = [([0, -1], 2)] \<and>
   map (wrap_path 1) [([0, -1], 2)] = [([0, 0], 2)] \<and>
   solve 1 (replicate 1 ALL_letters) (initial_cands (all_mask_of [(2, [[65, 65]])]) [([0, -1], 2)])
     [([0, -1], 2)] (index_of [(2, [[65, 65]])]) (all_mask_of [(2, [[65, 65]])]) 1
     (load_dictionary latin1_strip latin1_isalpha latin1_upper 2 [[65, 65]])
   = solve 1 (replicate 1 ALL_letters) (initial_cands (all_mask_of [(2, [[65, 65]])]) [([0, 0], 2)])
     [([0, 0], 2)] (index_of [(2, [[65, 65]])]) (all_mask_of [(2, [[65, 65]])]) 1
     (load_dictionary latin1_strip latin1_isalpha latin1_upper 2 [[65, 65]])"
proof -
  have e: "load_paths [[(0, 0), (0, -1)]] = ([([(0, 0), (0, -1)], 2)], 1, 1, 2)"
    by (simp add: load_paths_def)
  have l: "[([0, -1], 2)] = linear_paths [([(0, 0), (0, -1)], 2)] 1"
    by (simp add: linear_paths_def)
  have n: "(1::nat) = nat (1 * 1)" by simp
  have w: "map (wrap_path 1) [([0, -1], 2)] = [([0, 0], 2)]"
    by (simp add: wrap_index_def)
  from load_paths_rejects_nothing [OF e l n refl, where strip = latin1_strip
      and isalpha = latin1_isalpha and upper = latin1_upper and lines = "[[65, 65]]"
      and depth = 1]
  have "solve 1 (replicate 1 ALL_letters) (initial_cands (all_mask_of [(2, [[65, 65]])]) [([0, -1], 2)])
     [([0, -1], 2)] (index_of [(2, [[65, 65]])]) (all_mask_of [(2, [[65, 65]])]) 1
     (load_dictionary latin1_strip latin1_isalpha latin1_upper 2 [[65, 65]])
   = solve 1 (replicate 1 ALL_letters)
     (initial_cands (all_mask_of [(2, [[65, 65]])]) (map (wrap_path 1) [([0, -1], 2)]))
     (map (wrap_path 1) [([0, -1], 2)]) (index_of [(2, [[65, 65]])]) (all_mask_of [(2, [[65, 65]])]) 1
     (load_dictionary latin1_strip latin1_isalpha latin1_upper 2 [[65, 65]])"
    by blast
  then show ?thesis unfolding w using e l by simp
qed

lemmas main_simps =
  main_def load_paths_def linear_paths_def initial_cands_def solve_node_def
  choose_branch_path_def dict_get_def mask_to_letter_def no_solution_line_def

text \<open>
  Claim C5 as stated fails: a path that leaves the grid by column \<^verbatim>\<open>-1\<close> is not rejected.
  For the one path \<^verbatim>\<open>(0,0),(0,-1)\<close> and the dictionary \<^verbatim>\<open>AA\<close> the grid is inferred as
  one cell, the cell \<^verbatim>\<open>-1\<close> is read as the last cell of the list, and the program prints
  the board \<^verbatim>\<open>A\<close>.
\<close>

theorem out_of_grid_path_accepted:
  "main latin1_strip latin1_isalpha latin1_upper 1 [[(0, 0), (0, -1)]] [[65, 65]] = Inr [[65]]"
proof -
  have l: "load_dictionary latin1_strip latin1_isalpha latin1_upper 2 [[65, 65]] = [(2, [[65, 65]])]"
    by (simp add: latin1_simps Let_def)
  show ?thesis
    by (simp add: main_simps l run_simps)
qed


end
